theory Spec2Isabelle
  imports Complex_Main "HOL-Library.Word"
begin

section \<open>Data model\<close>

text \<open>
  A label volume is a 3D numpy array of segment ids, 0 being background. It is modelled
  as a list of planes, each a list of rows, each a list of voxels, in numpy's row-major
  order. Labels are natural numbers: the volumes hold non-negative ids, and the width
  of their integer type is not fixed by the source.

  The statistics arrays of \<open>numba_find_overlaps\<close> are created with
  \<open>.astype(np.uint16)\<close>: their entries are 16-bit words, whose addition wraps.
\<close>

type_synonym label = nat
type_synonym 'a vol = "'a list list list"
type_synonym u16 = "16 word"

text \<open>
  The exceptions the code can raise. Three of them are numpy's \<open>ValueError\<close>:
  \<open>EmptyMaskError\<close> is the one of \<open>.min()\<close> on the zero-size coordinate array in
  \<open>get_bbox\<close>, \<open>ZeroSizeMaxError\<close> the one of \<open>.max()\<close> on a zero-size array, and
  \<open>QuantileRangeError\<close> the one of \<open>np.quantile\<close> for a fraction outside [0, 1].
\<close>

datatype error = EmptyMaskError | ZeroSizeMaxError | QuantileRangeError | IndexError

definition flat :: "'a vol \<Rightarrow> 'a list" where
  "flat v = concat (concat v)"

definition vmap :: "('a \<Rightarrow> 'b) \<Rightarrow> 'a vol \<Rightarrow> 'b vol" where
  "vmap f v = map (map (map f)) v"

definition vmap2 :: "('a \<Rightarrow> 'b \<Rightarrow> 'c) \<Rightarrow> 'a vol \<Rightarrow> 'b vol \<Rightarrow> 'c vol" where
  "vmap2 f a b = map2 (map2 (map2 f)) a b"

definition same_shape :: "'a vol \<Rightarrow> 'b vol \<Rightarrow> bool" where
  "same_shape a b = (map (map length) a = map (map length) b)"

definition arr_max :: "nat list \<Rightarrow> error + nat" where
  "arr_max xs = (case xs of [] \<Rightarrow> Inl ZeroSizeMaxError | x # r \<Rightarrow> Inr (fold max r x))"

section \<open>numba_find_overlaps\<close>

text \<open>
  The body of the triple loop at one voxel: the three counters are incremented in
  16-bit arithmetic. The loop is modelled in its sequential order (the source runs the
  outer loop under \<open>numba.prange\<close>).
\<close>

definition count_voxel ::
  "label \<times> label \<Rightarrow> u16 list \<times> u16 list \<times> u16 list list \<Rightarrow> u16 list \<times> u16 list \<times> u16 list list" where
  "count_voxel p s =
     (case p of (seg_id, n_id) \<Rightarrow>
      case s of (cell_counts, n_counts, overlap_counts) \<Rightarrow>
        (if seg_id > 0 then cell_counts[seg_id := cell_counts ! seg_id + 1] else cell_counts,
         if n_id > 0 then n_counts[n_id := n_counts ! n_id + 1] else n_counts,
         if n_id > 0 \<and> seg_id > 0
         then overlap_counts[seg_id := (overlap_counts ! seg_id)[n_id := overlap_counts ! seg_id ! n_id + 1]]
         else overlap_counts))"

text \<open>
  The source indexes both volumes by the shape of \<open>cell_seg\<close>, without a bounds check;
  the model pairs the voxels of the two volumes plane by plane and row by row, which is
  the same traversal when the shapes agree.
\<close>

definition numba_find_overlaps ::
  "label vol \<Rightarrow> label vol \<Rightarrow> error + (u16 list \<times> u16 list \<times> u16 list list)" where
  "numba_find_overlaps cell_seg n_seg =
     (case arr_max (flat cell_seg) of Inl e \<Rightarrow> Inl e | Inr cmax \<Rightarrow>
     (case arr_max (flat n_seg) of Inl e \<Rightarrow> Inl e | Inr nmax \<Rightarrow>
        Inr (fold (\<lambda>(cplane, nplane). fold (\<lambda>(crow, nrow). fold count_voxel (zip crow nrow))
                     (zip cplane nplane))
               (zip cell_seg n_seg)
               (replicate (cmax + 1) 0, replicate (nmax + 1) 0,
                replicate (cmax + 1) (replicate (nmax + 1) 0)))))"

text \<open>The true voxel counts the statistics are compared with.\<close>

definition voxel_count :: "label vol \<Rightarrow> label \<Rightarrow> nat" where
  "voxel_count v i = length (filter (\<lambda>l. l = i) (flat v))"

definition voxel_pairs :: "'a vol \<Rightarrow> 'b vol \<Rightarrow> ('a \<times> 'b) list" where
  "voxel_pairs a b = concat (map (\<lambda>(p, q). concat (map (\<lambda>(r, s). zip r s) (zip p q))) (zip a b))"

definition overlap_count :: "label vol \<Rightarrow> label vol \<Rightarrow> label \<Rightarrow> label \<Rightarrow> nat" where
  "overlap_count c n i j = length (filter (\<lambda>p. p = (i, j)) (voxel_pairs c n))"

text \<open>
  The three counters evolve independently of each other: \<open>bump\<close> and \<open>bump2\<close> are the
  updates of a one-dimensional counter and of the matrix, and \<open>stats_of\<close> is the closed
  form of the statistics, every count reduced to 16 bits.
\<close>

definition bump :: "label \<Rightarrow> u16 list \<Rightarrow> u16 list" where
  "bump x cc = (if x > 0 then cc[x := cc ! x + 1] else cc)"

definition bump2 :: "label \<times> label \<Rightarrow> u16 list list \<Rightarrow> u16 list list" where
  "bump2 p oc = (if snd p > 0 \<and> fst p > 0
       then oc[fst p := (oc ! fst p)[snd p := oc ! fst p ! snd p + 1]] else oc)"

definition stats_of :: "label vol \<Rightarrow> label vol \<Rightarrow> u16 list \<times> u16 list \<times> u16 list list" where
  "stats_of c n =
     (map (\<lambda>i. if 0 < i then of_nat (length (filter (\<lambda>l. l = i) (map fst (voxel_pairs c n)))) else 0)
        [0..<Max (set (flat c)) + 1],
      map (\<lambda>j. if 0 < j then of_nat (length (filter (\<lambda>l. l = j) (map snd (voxel_pairs c n)))) else 0)
        [0..<Max (set (flat n)) + 1],
      map (\<lambda>i. map (\<lambda>j. if 0 < i \<and> 0 < j then of_nat (overlap_count c n i j) else 0)
                 [0..<Max (set (flat n)) + 1])
        [0..<Max (set (flat c)) + 1])"

section \<open>get_bbox\<close>

type_synonym bbox = "(int \<times> int) \<times> (int \<times> int) \<times> (int \<times> int)"

text \<open>\<open>mask.shape\<close>: the extents of the three axes.\<close>

definition shape :: "'a vol \<Rightarrow> nat \<times> nat \<times> nat" where
  "shape v =
     (length v,
      (case v of [] \<Rightarrow> 0 | p # _ \<Rightarrow> length p),
      (case v of [] \<Rightarrow> 0 | p # _ \<Rightarrow> (case p of [] \<Rightarrow> 0 | r # _ \<Rightarrow> length r)))"

text \<open>\<open>np.nonzero(mask)\<close>: the coordinates of the true voxels, in row-major order.\<close>

definition nonzero3 :: "bool vol \<Rightarrow> (nat \<times> nat \<times> nat) list" where
  "nonzero3 msk =
     concat (map (\<lambda>(z, plane).
       concat (map (\<lambda>(x, row).
         concat (map (\<lambda>(y, b). if b then [(z, x, y)] else []) (enumerate 0 row)))
         (enumerate 0 plane)))
       (enumerate 0 msk))"

text \<open>
  The expression the source writes once per axis:
  \<open>max(coords[k].min() - pixel_toll, 0), min(coords[k].max() + pixel_toll, max_shape[k])\<close>.
  \<open>.min()\<close> of a zero-size array raises.
\<close>

definition axis_range :: "nat list \<Rightarrow> int \<Rightarrow> nat \<Rightarrow> error + int \<times> int" where
  "axis_range cs pixel_toll axis_size =
     (case cs of
        [] \<Rightarrow> Inl EmptyMaskError
      | c # r \<Rightarrow> Inr (max (int (fold min r c) - pixel_toll) 0,
                     min (int (fold max r c) + pixel_toll) (int axis_size)))"

definition get_bbox :: "bool vol \<Rightarrow> int \<Rightarrow> error + bbox \<times> int \<times> int \<times> int" where
  "get_bbox msk pixel_toll =
     (case shape msk of (s0, s1, s2) \<Rightarrow>
      (let coords = nonzero3 msk in
       (case axis_range (map (\<lambda>(z, x, y). z) coords) pixel_toll s0 of Inl e \<Rightarrow> Inl e
        | Inr (z_min, z_max) \<Rightarrow>
       (let z_max = (if z_max - z_min > 0 then z_max else 1) in
       (case axis_range (map (\<lambda>(z, x, y). x) coords) pixel_toll s1 of Inl e \<Rightarrow> Inl e
        | Inr (x_min, x_max) \<Rightarrow>
       (case axis_range (map (\<lambda>(z, x, y). y) coords) pixel_toll s2 of Inl e \<Rightarrow> Inl e
        | Inr (y_min, y_max) \<Rightarrow>
          Inr (((z_min, z_max), (x_min, x_max), (y_min, y_max)), z_min, x_min, y_min)))))))"

text \<open>
  The first index and the end of a Python \<open>slice(lo, hi)\<close> on an axis of \<open>n\<close> entries (a
  negative bound counts from the end), and the number of indices the slice selects.
\<close>

definition slice_bounds :: "nat \<Rightarrow> int \<times> int \<Rightarrow> nat \<times> nat" where
  "slice_bounds n r =
     (case r of (lo, hi) \<Rightarrow>
        (nat (if lo < 0 then max (lo + int n) 0 else min lo (int n)),
         nat (if hi < 0 then max (hi + int n) 0 else min hi (int n))))"

definition extent :: "nat \<Rightarrow> int \<times> int \<Rightarrow> nat" where
  "extent n r = (case slice_bounds n r of (a, b) \<Rightarrow> b - a)"

section \<open>get_quantile_mask\<close>

text \<open>
  Floating-point numbers are modelled by exact rationals. \<open>np.quantile\<close> is numpy's
  default linear interpolation between the two order statistics around the virtual index
  \<open>(n - 1) * q\<close>; a fraction outside [0, 1] raises, and so does an empty array.
\<close>

definition quantile :: "u16 list \<Rightarrow> rat \<Rightarrow> error + rat" where
  "quantile counts q =
     (if q < 0 \<or> 1 < q then Inl QuantileRangeError
      else if counts = [] then Inl IndexError
      else
        let s = sort (map unat counts);
            n = length s;
            h = of_nat (n - 1) * q;
            lo = nat (floor h);
            hi = min (lo + 1) (n - 1);
            g = h - of_int (floor h)
        in Inr (of_nat (s ! lo) + g * (of_nat (s ! hi) - of_nat (s ! lo))))"

definition get_quantile_mask :: "u16 list \<Rightarrow> rat \<times> rat \<Rightarrow> error + bool list" where
  "get_quantile_mask counts quantile_pair =
     (case quantile counts (fst quantile_pair) of Inl e \<Rightarrow> Inl e | Inr low \<Rightarrow>
     (case quantile counts (snd quantile_pair) of Inl e \<Rightarrow> Inl e | Inr up \<Rightarrow>
        Inr (map (\<lambda>c. low < of_nat (unat c) \<and> up > of_nat (unat c)) counts)))"

section \<open>find_potential_under_seg and find_potential_over_seg\<close>

text \<open>
  The quotient of two uint16 scalars is a float: a zero denominator does not raise, it
  gives \<open>inf\<close> (or \<open>nan\<close> for 0/0) under a warning. A comparison with \<open>nan\<close> is false.
\<close>

datatype ratio = Finite rat | PosInf | NaN

definition true_divide :: "u16 \<Rightarrow> u16 \<Rightarrow> ratio" where
  "true_divide a b =
     (if b \<noteq> 0 then Finite (of_nat (unat a) / of_nat (unat b))
      else if a = 0 then NaN else PosInf)"

definition exceeds :: "ratio \<Rightarrow> rat \<Rightarrow> bool" where
  "exceeds r_i threshold = (case r_i of Finite q \<Rightarrow> q > threshold | PosInf \<Rightarrow> True | NaN \<Rightarrow> False)"

text \<open>\<open>np.nonzero(a)[0]\<close> of a one-dimensional array.\<close>

definition nonzero1 :: "u16 list \<Rightarrow> nat list" where
  "nonzero1 a = filter (\<lambda>i. a ! i \<noteq> 0) [0..<length a]"

record under_seg_record =
  under_n_idx :: "nat list"
  under_seg_idx :: "nat list"
  is_under_seg :: bool
  under_r_intersection :: "ratio list"

record over_seg_record =
  over_c_idx :: "nat list"
  over_seg_idx :: "nat list"
  is_over_seg :: bool
  over_r_intersection :: "ratio list"

text \<open>The record of an id that overlaps nothing.\<close>

definition empty_over_seg_record :: over_seg_record where
  "empty_over_seg_record =
     \<lparr>over_c_idx = [], over_seg_idx = [], is_over_seg = False, over_r_intersection = []\<rparr>"

definition empty_under_seg_record :: under_seg_record where
  "empty_under_seg_record =
     \<lparr>under_n_idx = [], under_seg_idx = [], is_under_seg = False, under_r_intersection = []\<rparr>"

text \<open>
  The body of the loop of \<open>find_potential_under_seg\<close> for one cell \<open>idx\<close>. Reading row
  \<open>idx\<close> of the matrix or entry \<open>_n_idx\<close> of the counts out of range raises IndexError.
\<close>

definition under_seg_entry ::
  "u16 list \<Rightarrow> bool list \<Rightarrow> u16 list list \<Rightarrow> rat \<Rightarrow> nat \<Rightarrow> error + under_seg_record" where
  "under_seg_entry nuclei_counts nuclei_counts_mask intersection_counts threshold idx =
     (if length intersection_counts \<le> idx then Inl IndexError
      else
        let row = intersection_counts ! idx;
            n_idx = nonzero1 row
        in if \<exists>k \<in> set n_idx. length nuclei_counts \<le> k then Inl IndexError
           else
             let r_intersection = map (\<lambda>k. true_divide (row ! k) (nuclei_counts ! k)) n_idx;
                 under_seg_n_idx =
                   map fst (filter (\<lambda>(k, r_i). exceeds r_i threshold \<and> nuclei_counts_mask ! k)
                              (zip n_idx r_intersection))
             in Inr \<lparr>under_n_idx = n_idx, under_seg_idx = under_seg_n_idx,
                     is_under_seg = (length under_seg_n_idx > 1),
                     under_r_intersection = r_intersection\<rparr>)"

text \<open>
  The dictionary the loop fills is an association list in insertion order, which is the
  order Python iterates it in: ascending \<open>idx\<close>.
\<close>

fun under_seg_loop ::
  "u16 list \<Rightarrow> bool list \<Rightarrow> u16 list list \<Rightarrow> rat \<Rightarrow> nat list \<Rightarrow> error + (nat \<times> under_seg_record) list" where
  "under_seg_loop nuclei_counts nuclei_counts_mask intersection_counts threshold [] = Inr []"
| "under_seg_loop nuclei_counts nuclei_counts_mask intersection_counts threshold (idx # rest) =
     (case under_seg_entry nuclei_counts nuclei_counts_mask intersection_counts threshold idx of
        Inl e \<Rightarrow> Inl e
      | Inr r \<Rightarrow>
        (case under_seg_loop nuclei_counts nuclei_counts_mask intersection_counts threshold rest of
           Inl e \<Rightarrow> Inl e
         | Inr cell_assigment \<Rightarrow> Inr (if is_under_seg r then (idx, r) # cell_assigment else cell_assigment)))"

definition find_potential_under_seg ::
  "u16 list \<Rightarrow> u16 list \<Rightarrow> u16 list list \<Rightarrow> rat \<Rightarrow> rat \<times> rat \<Rightarrow> error + (nat \<times> under_seg_record) list" where
  "find_potential_under_seg nuclei_counts cell_counts intersection_counts threshold quantiles_clip =
     (case get_quantile_mask nuclei_counts quantiles_clip of Inl e \<Rightarrow> Inl e
      | Inr nuclei_counts_mask \<Rightarrow>
          under_seg_loop nuclei_counts nuclei_counts_mask intersection_counts threshold
            [0..<length cell_counts])"

text \<open>
  The body of the loop of \<open>find_potential_over_seg\<close> for one nucleus \<open>idx\<close>. Reading
  column \<open>idx\<close> of the matrix out of range raises IndexError.
\<close>

definition over_seg_entry :: "u16 list \<Rightarrow> u16 list list \<Rightarrow> rat \<Rightarrow> nat \<Rightarrow> error + over_seg_record" where
  "over_seg_entry nuclei_counts intersection_counts threshold idx =
     (if \<exists>row \<in> set intersection_counts. length row \<le> idx then Inl IndexError
      else
        let c_idx = nonzero1 (map (\<lambda>row. row ! idx) intersection_counts);
            r_intersection =
              map (\<lambda>k. true_divide (intersection_counts ! k ! idx) (nuclei_counts ! idx)) c_idx;
            over_seg_c_idx =
              map fst (filter (\<lambda>(k, r_i). exceeds r_i threshold) (zip c_idx r_intersection))
        in Inr \<lparr>over_c_idx = c_idx, over_seg_idx = over_seg_c_idx,
                is_over_seg = (length over_seg_c_idx > 1),
                over_r_intersection = r_intersection\<rparr>)"

fun over_seg_loop ::
  "u16 list \<Rightarrow> u16 list list \<Rightarrow> rat \<Rightarrow> nat list \<Rightarrow> error + (nat \<times> over_seg_record) list" where
  "over_seg_loop nuclei_counts intersection_counts threshold [] = Inr []"
| "over_seg_loop nuclei_counts intersection_counts threshold (idx # rest) =
     (case over_seg_entry nuclei_counts intersection_counts threshold idx of
        Inl e \<Rightarrow> Inl e
      | Inr r \<Rightarrow>
        (case over_seg_loop nuclei_counts intersection_counts threshold rest of
           Inl e \<Rightarrow> Inl e
         | Inr nuclei_assigment \<Rightarrow> Inr (if is_over_seg r then (idx, r) # nuclei_assigment else nuclei_assigment)))"

definition find_potential_over_seg ::
  "u16 list \<Rightarrow> u16 list list \<Rightarrow> rat \<Rightarrow> error + (nat \<times> over_seg_record) list" where
  "find_potential_over_seg nuclei_counts intersection_counts threshold =
     over_seg_loop nuclei_counts intersection_counts threshold [0..<length nuclei_counts]"


section \<open>split_from_seeds\<close>

text \<open>
  \<open>a[bbox]\<close> is a view on the box: \<open>py_slice\<close> reads the entries a slice selects on one
  axis, \<open>update_slice\<close> writes through the view on one axis, leaving the entries outside
  the slice as they are.
\<close>

definition py_slice :: "int \<times> int \<Rightarrow> 'a list \<Rightarrow> 'a list" where
  "py_slice r xs = (case slice_bounds (length xs) r of (a, b) \<Rightarrow> take (b - a) (drop a xs))"

definition update_slice :: "int \<times> int \<Rightarrow> ('a list \<Rightarrow> 'a list) \<Rightarrow> 'a list \<Rightarrow> 'a list" where
  "update_slice r f xs =
     (case slice_bounds (length xs) r of (a, b) \<Rightarrow>
        take a xs @ f (take (b - a) (drop a xs)) @ drop (max a b) xs)"

definition crop :: "bbox \<Rightarrow> 'a vol \<Rightarrow> 'a vol" where
  "crop bbox v =
     (case bbox of (rz, rx, ry) \<Rightarrow>
        map (\<lambda>plane. map (py_slice ry) (py_slice rx plane)) (py_slice rz v))"

text \<open>Writing the volume \<open>new\<close> through the view \<open>v[bbox]\<close>.\<close>

definition paste :: "bbox \<Rightarrow> 'a vol \<Rightarrow> 'a vol \<Rightarrow> 'a vol" where
  "paste bbox new v =
     (case bbox of (rz, rx, ry) \<Rightarrow>
        update_slice rz
          (\<lambda>planes. map2 (\<lambda>plane nplane.
             update_slice rx
               (\<lambda>rows. map2 (\<lambda>row nrow. update_slice ry (\<lambda>cells. nrow) row) rows nplane)
               plane)
             planes new)
          v)"

text \<open>
  The external primitives are a parameter: \<open>flood pmap seeds\<close> stands for
  \<open>watershed(gaussian(pmap / pmap.max(), 2.0), markers=seeds, compactness=0.001)\<close>, a
  label volume. \<open>pmap.max()\<close> raises on a zero-size crop, before the primitive is called.
  \<open>copy.deepcopy\<close> is the identity on values. For an empty \<open>all_idx\<close> the reduction gives
  the scalar False, on which \<open>get_bbox\<close> raises the same ValueError as on an all-false
  mask. The assignment \<open>c_segmentation[bbox][_mask] = local_seg[_mask].ravel()\<close> needs
  \<open>local_seg\<close> to have the shape of the crop: it raises IndexError otherwise.
\<close>

type_synonym flood = "rat vol \<Rightarrow> label vol \<Rightarrow> label vol"

definition split_from_seeds ::
  "flood \<Rightarrow> label vol \<Rightarrow> rat vol \<Rightarrow> label vol \<Rightarrow> label list \<Rightarrow> error + label vol" where
  "split_from_seeds flood segmentation boundary_pmap seeds all_idx =
     (let c_segmentation = segmentation;
          msk = vmap (\<lambda>l. l \<in> set all_idx) c_segmentation
      in (case get_bbox msk 0 of Inl e \<Rightarrow> Inl e
          | Inr (bbox, z_min, x_min, y_min) \<Rightarrow>
           (let boundary_pmap' = crop bbox boundary_pmap;
                seeds' = crop bbox seeds;
                msk' = vmap (\<lambda>l. l \<in> set all_idx) (crop bbox c_segmentation)
            in if flat boundary_pmap' = [] then Inl ZeroSizeMaxError
               else
                 (let local_seg = flood boundary_pmap' seeds' in
                  (case arr_max (flat c_segmentation) of Inl e \<Rightarrow> Inl e
                   | Inr max_id \<Rightarrow>
                    (let local_seg = vmap (\<lambda>l. l + (max_id + 1)) local_seg
                     in if \<not> same_shape local_seg msk' then Inl IndexError
                        else Inr (paste bbox
                                    (vmap2 (\<lambda>(m, c) l. if m then l else c)
                                       (vmap2 Pair msk' (crop bbox c_segmentation)) local_seg)
                                    c_segmentation)))))))"


section \<open>fix_under_segmentation\<close>

text \<open>\<open>cell_idx is None or c_idx in cell_idx\<close>\<close>

definition selected :: "nat list option \<Rightarrow> nat \<Rightarrow> bool" where
  "selected ids i = (case ids of None \<Rightarrow> True | Some l \<Rightarrow> i \<in> set l)"

text \<open>
  The seed volume of one record: zeros of the shape of the segmentation, then the voxels
  of the \<open>i\<close>-th qualifying nucleus set to \<open>i + 1\<close>. The boolean index must have the shape
  of the indexed array.
\<close>

definition nuclei_seeds :: "label vol \<Rightarrow> label vol \<Rightarrow> nat list \<Rightarrow> error + label vol" where
  "nuclei_seeds segmentation' nuclei_segmentation under_idx =
     (if under_idx \<noteq> [] \<and> \<not> same_shape segmentation' nuclei_segmentation then Inl IndexError
      else Inr (fold (\<lambda>(i, n_idx) seeds. vmap2 (\<lambda>s n. if n_idx = n then i + 1 else s) seeds nuclei_segmentation)
                  (enumerate 0 under_idx) (vmap (\<lambda>_. 0) segmentation')))"

fun fix_under_loop ::
  "flood \<Rightarrow> label vol \<Rightarrow> rat vol \<Rightarrow> nat list option \<Rightarrow> (nat \<times> under_seg_record) list \<Rightarrow> label vol
     \<Rightarrow> error + label vol" where
  "fix_under_loop flood nuclei_segmentation boundary_pmap cell_idx [] segmentation' = Inr segmentation'"
| "fix_under_loop flood nuclei_segmentation boundary_pmap cell_idx ((c_idx, val) # rest) segmentation' =
     (if selected cell_idx c_idx then
        (case nuclei_seeds segmentation' nuclei_segmentation (under_seg_idx val) of
           Inl e \<Rightarrow> Inl e
         | Inr nuclei_seeds' \<Rightarrow>
           (case split_from_seeds flood segmentation' boundary_pmap nuclei_seeds' [c_idx] of
              Inl e \<Rightarrow> Inl e
            | Inr s \<Rightarrow> fix_under_loop flood nuclei_segmentation boundary_pmap cell_idx rest s))
      else fix_under_loop flood nuclei_segmentation boundary_pmap cell_idx rest segmentation')"

definition fix_under_segmentation ::
  "flood \<Rightarrow> label vol \<Rightarrow> label vol \<Rightarrow> rat vol \<Rightarrow> (nat \<times> under_seg_record) list \<Rightarrow> nat list option
     \<Rightarrow> error + label vol" where
  "fix_under_segmentation flood segmentation nuclei_segmentation boundary_pmap cell_assignments cell_idx =
     fix_under_loop flood nuclei_segmentation boundary_pmap cell_idx cell_assignments segmentation"

section \<open>fix_over_segmentation\<close>

text \<open>
  One masked assignment \<open>_segmentation[segmentation == c_idx] = new_value\<close>: the mask is
  taken on the argument \<open>segmentation\<close>, the write goes to the copy.
\<close>

definition relabel_where :: "label vol \<Rightarrow> label \<Rightarrow> label \<Rightarrow> label vol \<Rightarrow> label vol" where
  "relabel_where segmentation c new_value segmentation' =
     vmap2 (\<lambda>cur orig. if orig = c then new_value else cur) segmentation' segmentation"

fun fix_over_loop ::
  "label vol \<Rightarrow> nat list option \<Rightarrow> (nat \<times> over_seg_record) list \<Rightarrow> label vol \<Rightarrow> error + label vol" where
  "fix_over_loop segmentation nuclei_idx [] segmentation' = Inr segmentation'"
| "fix_over_loop segmentation nuclei_idx ((n_idx, val) # rest) segmentation' =
     (if selected nuclei_idx n_idx then
        (case over_seg_idx val of
           [] \<Rightarrow> Inl IndexError
         | new_value # _ \<Rightarrow>
             fix_over_loop segmentation nuclei_idx rest
               (fold (\<lambda>c. relabel_where segmentation c new_value) (over_seg_idx val) segmentation'))
      else fix_over_loop segmentation nuclei_idx rest segmentation')"

definition fix_over_segmentation ::
  "label vol \<Rightarrow> (nat \<times> over_seg_record) list \<Rightarrow> nat list option \<Rightarrow> error + label vol" where
  "fix_over_segmentation segmentation nuclei_assignments nuclei_idx =
     fix_over_loop segmentation nuclei_idx nuclei_assignments segmentation"

text \<open>
  The label a voxel of old label \<open>l\<close> carries after the pass: the first qualifying id
  of the last applied record whose qualifying set holds \<open>l\<close>. \<open>merge_label\<close> is the
  same from an intermediate relabelling \<open>g\<close>.
\<close>

definition merge_target :: "nat list option \<Rightarrow> (nat \<times> over_seg_record) list \<Rightarrow> label \<Rightarrow> label" where
  "merge_target nuclei_idx nuclei_assignments l =
     (case filter (\<lambda>(n, val). selected nuclei_idx n \<and> l \<in> set (over_seg_idx val)) nuclei_assignments of
        [] \<Rightarrow> l
      | ms \<Rightarrow> hd (over_seg_idx (snd (last ms))))"

definition merge_label ::
  "nat list option \<Rightarrow> (nat \<times> over_seg_record) list \<Rightarrow> (label \<Rightarrow> label) \<Rightarrow> label \<Rightarrow> label" where
  "merge_label nuclei_idx nuclei_assignments g l =
     (case filter (\<lambda>(n, val). selected nuclei_idx n \<and> l \<in> set (over_seg_idx val)) nuclei_assignments of
        [] \<Rightarrow> g l
      | ms \<Rightarrow> hd (over_seg_idx (snd (last ms))))"

section \<open>fix_over_under_segmentation_from_nuclei\<close>

definition fix_over_under_segmentation_from_nuclei ::
  "flood \<Rightarrow> label vol \<Rightarrow> label vol \<Rightarrow> rat \<Rightarrow> rat \<Rightarrow> rat \<times> rat \<Rightarrow> rat vol option \<Rightarrow> error + label vol" where
  "fix_over_under_segmentation_from_nuclei flood cell_seg nuclei_seg threshold_merge threshold_split
       quantiles_nuclei boundary =
     (case numba_find_overlaps cell_seg nuclei_seg of Inl e \<Rightarrow> Inl e
      | Inr (cell_counts, nuclei_counts, cell_nuclei_counts) \<Rightarrow>
     (case find_potential_over_seg nuclei_counts cell_nuclei_counts threshold_merge of Inl e \<Rightarrow> Inl e
      | Inr nuclei_assignments \<Rightarrow>
     (case fix_over_segmentation cell_seg nuclei_assignments None of Inl e \<Rightarrow> Inl e
      | Inr cell_seg' \<Rightarrow>
     (case numba_find_overlaps cell_seg' nuclei_seg of Inl e \<Rightarrow> Inl e
      | Inr (cell_counts, nuclei_counts, cell_nuclei_counts) \<Rightarrow>
     (case find_potential_under_seg nuclei_counts cell_counts cell_nuclei_counts threshold_split
             quantiles_nuclei of Inl e \<Rightarrow> Inl e
      | Inr cell_assignments \<Rightarrow>
        (let boundary_pmap = (case boundary of None \<Rightarrow> vmap (\<lambda>_. 1) cell_seg | Some b \<Rightarrow> b)
         in fix_under_segmentation flood cell_seg' nuclei_seg boundary_pmap cell_assignments None))))))"


section \<open>The passes on arrays in a store\<close>

text \<open>
  The functions above compute on values. To say which arrays a pass writes, the same
  functions are given on a store of arrays: an argument or result that is a label volume
  is the address of an array, \<open>copy.deepcopy\<close>, \<open>np.zeros_like\<close> and the result of the
  external primitive allocate a new array, and a masked assignment overwrites the array
  at the address it is applied to. The masks, the crops that are only read, the boundary
  map and the statistics are values.
\<close>

type_synonym addr = nat

record store =
  arrays :: "addr \<Rightarrow> label vol"
  next_addr :: addr

definition alloc :: "label vol \<Rightarrow> store \<Rightarrow> addr \<times> store" where
  "alloc v st =
     (next_addr st, \<lparr>arrays = (arrays st)(next_addr st := v), next_addr = Suc (next_addr st)\<rparr>)"

definition assign :: "addr \<Rightarrow> label vol \<Rightarrow> store \<Rightarrow> store" where
  "assign a v st = st\<lparr>arrays := (arrays st)(a := v)\<rparr>"

fun fix_over_loop_st ::
  "addr \<Rightarrow> nat list option \<Rightarrow> (nat \<times> over_seg_record) list \<Rightarrow> addr \<Rightarrow> store
     \<Rightarrow> (error + addr) \<times> store" where
  "fix_over_loop_st segmentation nuclei_idx [] segmentation' st = (Inr segmentation', st)"
| "fix_over_loop_st segmentation nuclei_idx ((n_idx, val) # rest) segmentation' st =
     (if selected nuclei_idx n_idx then
        (case over_seg_idx val of
           [] \<Rightarrow> (Inl IndexError, st)
         | new_value # _ \<Rightarrow>
             fix_over_loop_st segmentation nuclei_idx rest segmentation'
               (fold (\<lambda>c st. assign segmentation'
                               (relabel_where (arrays st segmentation) c new_value
                                  (arrays st segmentation')) st)
                  (over_seg_idx val) st))
      else fix_over_loop_st segmentation nuclei_idx rest segmentation' st)"

definition fix_over_segmentation_st ::
  "addr \<Rightarrow> (nat \<times> over_seg_record) list \<Rightarrow> nat list option \<Rightarrow> store \<Rightarrow> (error + addr) \<times> store" where
  "fix_over_segmentation_st segmentation nuclei_assignments nuclei_idx st =
     (case alloc (arrays st segmentation) st of
        (segmentation', st1) \<Rightarrow>
          fix_over_loop_st segmentation nuclei_idx nuclei_assignments segmentation' st1)"

definition split_from_seeds_st ::
  "flood \<Rightarrow> addr \<Rightarrow> rat vol \<Rightarrow> addr \<Rightarrow> label list \<Rightarrow> store \<Rightarrow> (error + addr) \<times> store" where
  "split_from_seeds_st flood segmentation boundary_pmap seeds all_idx st =
     (case alloc (arrays st segmentation) st of
        (c_segmentation, st1) \<Rightarrow>
          (let msk = vmap (\<lambda>l. l \<in> set all_idx) (arrays st1 c_segmentation)
           in (case get_bbox msk 0 of Inl e \<Rightarrow> (Inl e, st1)
               | Inr (bbox, z_min, x_min, y_min) \<Rightarrow>
                (let boundary_pmap' = crop bbox boundary_pmap;
                     seeds' = crop bbox (arrays st1 seeds);
                     msk' = vmap (\<lambda>l. l \<in> set all_idx) (crop bbox (arrays st1 c_segmentation))
                 in if flat boundary_pmap' = [] then (Inl ZeroSizeMaxError, st1)
                    else
                      (case alloc (flood boundary_pmap' seeds') st1 of
                         (local_seg, st2) \<Rightarrow>
                           (case arr_max (flat (arrays st2 c_segmentation)) of
                              Inl e \<Rightarrow> (Inl e, st2)
                            | Inr max_id \<Rightarrow>
                               (let st3 = assign local_seg
                                            (vmap (\<lambda>l. l + (max_id + 1)) (arrays st2 local_seg)) st2
                                in if \<not> same_shape (arrays st3 local_seg) msk'
                                   then (Inl IndexError, st3)
                                   else (Inr c_segmentation,
                                         assign c_segmentation
                                           (paste bbox
                                              (vmap2 (\<lambda>(m, c) l. if m then l else c)
                                                 (vmap2 Pair msk' (crop bbox (arrays st3 c_segmentation)))
                                                 (arrays st3 local_seg))
                                              (arrays st3 c_segmentation))
                                           st3))))))))"

definition nuclei_seeds_st :: "addr \<Rightarrow> addr \<Rightarrow> nat list \<Rightarrow> store \<Rightarrow> (error + addr) \<times> store" where
  "nuclei_seeds_st segmentation' nuclei_segmentation under_idx st =
     (case alloc (vmap (\<lambda>_. 0) (arrays st segmentation')) st of
        (nuclei_seeds', st1) \<Rightarrow>
          if under_idx \<noteq> [] \<and> \<not> same_shape (arrays st1 nuclei_seeds') (arrays st1 nuclei_segmentation)
          then (Inl IndexError, st1)
          else (Inr nuclei_seeds',
                fold (\<lambda>(i, n_idx) st. assign nuclei_seeds'
                                        (vmap2 (\<lambda>s n. if n_idx = n then i + 1 else s)
                                           (arrays st nuclei_seeds') (arrays st nuclei_segmentation)) st)
                  (enumerate 0 under_idx) st1))"

fun fix_under_loop_st ::
  "flood \<Rightarrow> addr \<Rightarrow> rat vol \<Rightarrow> nat list option \<Rightarrow> (nat \<times> under_seg_record) list \<Rightarrow> addr \<Rightarrow> store
     \<Rightarrow> (error + addr) \<times> store" where
  "fix_under_loop_st flood nuclei_segmentation boundary_pmap cell_idx [] segmentation' st =
     (Inr segmentation', st)"
| "fix_under_loop_st flood nuclei_segmentation boundary_pmap cell_idx ((c_idx, val) # rest) segmentation' st =
     (if selected cell_idx c_idx then
        (case nuclei_seeds_st segmentation' nuclei_segmentation (under_seg_idx val) st of
           (Inl e, st1) \<Rightarrow> (Inl e, st1)
         | (Inr nuclei_seeds', st1) \<Rightarrow>
           (case split_from_seeds_st flood segmentation' boundary_pmap nuclei_seeds' [c_idx] st1 of
              (Inl e, st2) \<Rightarrow> (Inl e, st2)
            | (Inr s, st2) \<Rightarrow>
                fix_under_loop_st flood nuclei_segmentation boundary_pmap cell_idx rest s st2))
      else fix_under_loop_st flood nuclei_segmentation boundary_pmap cell_idx rest segmentation' st)"

definition fix_under_segmentation_st ::
  "flood \<Rightarrow> addr \<Rightarrow> addr \<Rightarrow> rat vol \<Rightarrow> (nat \<times> under_seg_record) list \<Rightarrow> nat list option \<Rightarrow> store
     \<Rightarrow> (error + addr) \<times> store" where
  "fix_under_segmentation_st flood segmentation nuclei_segmentation boundary_pmap cell_assignments
       cell_idx st =
     (case alloc (arrays st segmentation) st of
        (segmentation', st1) \<Rightarrow>
          fix_under_loop_st flood nuclei_segmentation boundary_pmap cell_idx cell_assignments
            segmentation' st1)"

definition fix_over_under_segmentation_from_nuclei_st ::
  "flood \<Rightarrow> addr \<Rightarrow> addr \<Rightarrow> rat \<Rightarrow> rat \<Rightarrow> rat \<times> rat \<Rightarrow> rat vol option \<Rightarrow> store
     \<Rightarrow> (error + addr) \<times> store" where
  "fix_over_under_segmentation_from_nuclei_st flood cell_seg nuclei_seg threshold_merge threshold_split
       quantiles_nuclei boundary st =
     (case numba_find_overlaps (arrays st cell_seg) (arrays st nuclei_seg) of Inl e \<Rightarrow> (Inl e, st)
      | Inr (cell_counts, nuclei_counts, cell_nuclei_counts) \<Rightarrow>
     (case find_potential_over_seg nuclei_counts cell_nuclei_counts threshold_merge of
        Inl e \<Rightarrow> (Inl e, st)
      | Inr nuclei_assignments \<Rightarrow>
     (case fix_over_segmentation_st cell_seg nuclei_assignments None st of
        (Inl e, st1) \<Rightarrow> (Inl e, st1)
      | (Inr cell_seg', st1) \<Rightarrow>
     (case numba_find_overlaps (arrays st1 cell_seg') (arrays st1 nuclei_seg) of
        Inl e \<Rightarrow> (Inl e, st1)
      | Inr (cell_counts, nuclei_counts, cell_nuclei_counts) \<Rightarrow>
     (case find_potential_under_seg nuclei_counts cell_counts cell_nuclei_counts threshold_split
             quantiles_nuclei of
        Inl e \<Rightarrow> (Inl e, st1)
      | Inr cell_assignments \<Rightarrow>
        (let boundary_pmap =
               (case boundary of None \<Rightarrow> vmap (\<lambda>_. 1) (arrays st1 cell_seg) | Some b \<Rightarrow> b)
         in fix_under_segmentation_st flood cell_seg' nuclei_seg boundary_pmap cell_assignments
              None st1))))))"

text \<open>
  A pass leaves the arrays that existed before it as they were: every array below the
  address \<open>n\<close> is unchanged, and no address is given up.
\<close>

definition preserves :: "addr \<Rightarrow> store \<Rightarrow> store \<Rightarrow> bool" where
  "preserves n st st' = ((\<forall>a < n. arrays st' a = arrays st a) \<and> next_addr st \<le> next_addr st')"

section \<open>Properties of the overlap counter\<close>

lemma arr_max_Max: "xs \<noteq> [] \<Longrightarrow> arr_max xs = Inr (Max (set xs))"
  by (cases xs) (simp_all add: arr_max_def Max.set_eq_fold [symmetric])

lemma arr_max_Nil: "arr_max [] = Inl ZeroSizeMaxError"
  by (simp add: arr_max_def)

lemma arr_max_ge: "arr_max xs = Inr m \<Longrightarrow> x \<in> set xs \<Longrightarrow> x \<le> m"
  by (cases "xs = []") (auto simp: arr_max_Max)

lemma fold_nested_pairs:
  "fold (\<lambda>(cplane, nplane). fold (\<lambda>(crow, nrow). fold f (zip crow nrow)) (zip cplane nplane))
      (zip c n) s = fold f (voxel_pairs c n) s"
proof -
  have rows: "fold (\<lambda>(crow, nrow). fold f (zip crow nrow)) ps t
      = fold f (concat (map (\<lambda>(r, s). zip r s) ps)) t" for ps t
    by (induction ps arbitrary: t) (auto)
  have "fold (\<lambda>(cplane, nplane). fold (\<lambda>(crow, nrow). fold f (zip crow nrow)) (zip cplane nplane)) qs s
      = fold f (concat (map (\<lambda>(p, q). concat (map (\<lambda>(r, s). zip r s) (zip p q))) qs)) s" for qs
    by (induction qs arbitrary: s) (auto simp: rows)
  then show ?thesis by (simp add: voxel_pairs_def)
qed

lemma fold_count_voxel_split:
  "fold count_voxel ps (cc, nc, oc)
     = (fold bump (map fst ps) cc, fold bump (map snd ps) nc, fold bump2 ps oc)"
  by (induction ps arbitrary: cc nc oc) (auto simp: count_voxel_def bump_def bump2_def)

lemma length_fold_bump: "length (fold bump xs cc) = length cc"
  by (induction xs arbitrary: cc) (auto simp: bump_def)

lemma fold_bump_nth:
  "i < length cc \<Longrightarrow>
   fold bump xs cc ! i = cc ! i + (if i > 0 then of_nat (length (filter (\<lambda>l. l = i) xs)) else 0)"
proof (induction xs arbitrary: cc)
  case Nil then show ?case by simp
next
  case (Cons x xs)
  have "i < length (bump x cc)" using Cons.prems by (simp add: bump_def)
  from Cons.IH [OF this] show ?case using Cons.prems
    by (auto simp: bump_def nth_list_update)
qed

lemma length_fold_bump2: "length (fold bump2 ps oc) = length oc"
  by (induction ps arbitrary: oc) (auto simp: bump2_def)

lemma length_fold_bump2_row:
  "i < length oc \<Longrightarrow> length (fold bump2 ps oc ! i) = length (oc ! i)"
proof (induction ps arbitrary: oc)
  case Nil then show ?case by simp
next
  case (Cons p ps)
  have l: "i < length (bump2 p oc)" using Cons.prems by (simp add: bump2_def)
  have "length (bump2 p oc ! i) = length (oc ! i)" using Cons.prems
    by (cases "i = fst p") (auto simp: bump2_def)
  with Cons.IH [OF l] show ?case by simp
qed

lemma fold_bump2_nth:
  "i < length oc \<Longrightarrow> j < length (oc ! i) \<Longrightarrow>
   fold bump2 ps oc ! i ! j
     = oc ! i ! j + (if i > 0 \<and> j > 0 then of_nat (length (filter (\<lambda>p. p = (i, j)) ps)) else 0)"
proof (induction ps arbitrary: oc)
  case Nil then show ?case by simp
next
  case (Cons p ps)
  have l: "i < length (bump2 p oc)" using Cons.prems by (simp add: bump2_def)
  have r: "length (bump2 p oc ! i) = length (oc ! i)" using Cons.prems
    by (cases "i = fst p") (auto simp: bump2_def)
  have s: "bump2 p oc ! i ! j = oc ! i ! j + (if i > 0 \<and> j > 0 \<and> p = (i, j) then 1 else 0)"
    using Cons.prems by (cases p; cases "i = fst p") (auto simp: bump2_def nth_list_update)
  from Cons.IH [OF l] r Cons.prems s show ?case
    by (auto)
qed

lemma same_shape_pairs_fst: "same_shape a b \<Longrightarrow> map fst (voxel_pairs a b) = flat a"
proof -
  have rows: "map length p = map length q \<Longrightarrow>
      map fst (concat (map (\<lambda>(r, s). zip r s) (zip p q))) = concat p" for p :: "'a list list" and q :: "'b list list"
  proof (induction p arbitrary: q)
    case Nil then show ?case by simp
  next
    case (Cons r p)
    then obtain s q' where q: "q = s # q'" by (cases q) auto
    with Cons show ?case by (simp add: map_concat)
  qed
  have "map (map length) a = map (map length) b \<Longrightarrow>
      map fst (concat (map (\<lambda>(p, q). concat (map (\<lambda>(r, s). zip r s) (zip p q))) (zip a b))) = concat (concat a)"
  proof (induction a arbitrary: b)
    case Nil then show ?case by simp
  next
    case (Cons p a)
    then obtain q b' where b: "b = q # b'" by (cases b) auto
    with Cons rows [of p q] show ?case by simp
  qed
  then show "same_shape a b \<Longrightarrow> map fst (voxel_pairs a b) = flat a"
    by (simp add: same_shape_def voxel_pairs_def flat_def)
qed

lemma same_shape_pairs_snd: "same_shape a b \<Longrightarrow> map snd (voxel_pairs a b) = flat b"
proof -
  have rows: "map length p = map length q \<Longrightarrow>
      map snd (concat (map (\<lambda>(r, s). zip r s) (zip p q))) = concat q" for p :: "'a list list" and q :: "'b list list"
  proof (induction p arbitrary: q)
    case Nil then show ?case by simp
  next
    case (Cons r p)
    then obtain s q' where q: "q = s # q'" by (cases q) auto
    with Cons show ?case by (simp add: map_concat)
  qed
  have "map (map length) a = map (map length) b \<Longrightarrow>
      map snd (concat (map (\<lambda>(p, q). concat (map (\<lambda>(r, s). zip r s) (zip p q))) (zip a b))) = concat (concat b)"
  proof (induction a arbitrary: b)
    case Nil then show ?case by simp
  next
    case (Cons p a)
    then obtain q b' where b: "b = q # b'" by (cases b) auto
    with Cons rows [of p q] show ?case by simp
  qed
  then show "same_shape a b \<Longrightarrow> map snd (voxel_pairs a b) = flat b"
    by (simp add: same_shape_def voxel_pairs_def flat_def)
qed


lemma fold_bump_replicate:
  "fold bump xs (replicate m 0)
     = map (\<lambda>i. if 0 < i then of_nat (length (filter (\<lambda>l. l = i) xs)) else 0) [0..<m]"
  by (rule nth_equalityI) (simp_all add: length_fold_bump fold_bump_nth)

lemma fold_bump2_replicate:
  "fold bump2 ps (replicate m (replicate k 0))
     = map (\<lambda>i. map (\<lambda>j. if 0 < i \<and> 0 < j then of_nat (length (filter (\<lambda>p. p = (i, j)) ps)) else 0)
                 [0..<k]) [0..<m]"
proof (rule nth_equalityI)
  show "length (fold bump2 ps (replicate m (replicate k 0))) = length (map (\<lambda>i. map (\<lambda>j. if 0 < i \<and> 0 < j then of_nat (length (filter (\<lambda>p. p = (i, j)) ps)) else (0::u16)) [0..<k]) [0..<m])"
    by (simp add: length_fold_bump2)
next
  fix i assume "i < length (fold bump2 ps (replicate m (replicate k 0)))"
  then have i: "i < m" by (simp add: length_fold_bump2)
  show "fold bump2 ps (replicate m (replicate k 0)) ! i
      = map (\<lambda>i. map (\<lambda>j. if 0 < i \<and> 0 < j then of_nat (length (filter (\<lambda>p. p = (i, j)) ps)) else 0) [0..<k]) [0..<m] ! i"
    using i by (intro nth_equalityI) (simp_all add: length_fold_bump2_row fold_bump2_nth)
qed

lemma numba_find_overlaps_closed:
  assumes "flat c \<noteq> []" and "flat n \<noteq> []"
  shows "numba_find_overlaps c n = Inr (stats_of c n)"
  unfolding numba_find_overlaps_def arr_max_Max [OF assms(1)] arr_max_Max [OF assms(2)]
    fold_nested_pairs fold_count_voxel_split fold_bump_replicate fold_bump2_replicate
    stats_of_def overlap_count_def
  by simp

lemma numba_find_overlaps_Inr:
  "numba_find_overlaps c n = Inr s \<Longrightarrow> flat c \<noteq> [] \<and> flat n \<noteq> [] \<and> s = stats_of c n"
  by (cases "flat c = []"; cases "flat n = []")
     (auto simp: numba_find_overlaps_closed, auto simp: numba_find_overlaps_def arr_max_def split: sum.splits list.splits)


lemma stats_of_same_shape:
  assumes "same_shape c n"
  shows "stats_of c n =
     (map (\<lambda>i. if 0 < i then of_nat (voxel_count c i) else 0) [0..<Max (set (flat c)) + 1],
      map (\<lambda>j. if 0 < j then of_nat (voxel_count n j) else 0) [0..<Max (set (flat n)) + 1],
      map (\<lambda>i. map (\<lambda>j. if 0 < i \<and> 0 < j then of_nat (overlap_count c n i j) else 0)
                 [0..<Max (set (flat n)) + 1])
        [0..<Max (set (flat c)) + 1])"
  unfolding stats_of_def same_shape_pairs_fst [OF assms] same_shape_pairs_snd [OF assms] voxel_count_def
  by (rule refl)

lemma nth_map_upt0: "i \<le> k \<Longrightarrow> map f [0..<k + 1] ! i = f i"
  using nth_map_upt [of i "k + 1" 0 f] by simp

lemma stats_nth:
  assumes "same_shape c n" and "numba_find_overlaps c n = Inr (cc, nc, oc)"
  shows "length cc = Max (set (flat c)) + 1"
    and "length nc = Max (set (flat n)) + 1"
    and "length oc = Max (set (flat c)) + 1"
    and "i \<le> Max (set (flat c)) \<Longrightarrow> cc ! i = (if 0 < i then of_nat (voxel_count c i) else 0)"
    and "j \<le> Max (set (flat n)) \<Longrightarrow> nc ! j = (if 0 < j then of_nat (voxel_count n j) else 0)"
    and "i \<le> Max (set (flat c)) \<Longrightarrow>
         oc ! i = map (\<lambda>j. if 0 < i \<and> 0 < j then of_nat (overlap_count c n i j) else 0)
                    [0..<Max (set (flat n)) + 1]"
proof -
  from numba_find_overlaps_Inr [OF assms(2)]
  have "(cc, nc, oc) = stats_of c n" by simp
  then have s: "cc = map (\<lambda>i. if 0 < i then of_nat (voxel_count c i) else 0) [0..<Max (set (flat c)) + 1]"
      "nc = map (\<lambda>j. if 0 < j then of_nat (voxel_count n j) else 0) [0..<Max (set (flat n)) + 1]"
      "oc = map (\<lambda>i. map (\<lambda>j. if 0 < i \<and> 0 < j then of_nat (overlap_count c n i j) else 0)
                 [0..<Max (set (flat n)) + 1]) [0..<Max (set (flat c)) + 1]"
    unfolding stats_of_same_shape [OF assms(1)] by simp_all
  show "length cc = Max (set (flat c)) + 1" "length nc = Max (set (flat n)) + 1"
     "length oc = Max (set (flat c)) + 1"
    unfolding s by simp_all
  show "i \<le> Max (set (flat c)) \<Longrightarrow> cc ! i = (if 0 < i then of_nat (voxel_count c i) else 0)"
    unfolding s by (rule nth_map_upt0)
  show "j \<le> Max (set (flat n)) \<Longrightarrow> nc ! j = (if 0 < j then of_nat (voxel_count n j) else 0)"
    unfolding s by (rule nth_map_upt0)
  show "i \<le> Max (set (flat c)) \<Longrightarrow>
         oc ! i = map (\<lambda>j. if 0 < i \<and> 0 < j then of_nat (overlap_count c n i j) else 0)
                    [0..<Max (set (flat n)) + 1]"
    unfolding s by (rule nth_map_upt0)
qed

lemma unat_u16_of_nat: "unat (of_nat k :: u16) = k mod 65536"
  by (simp add: unat_of_nat)




lemma indicator_row_sum:
  "sum_list (map (\<lambda>j. if p = (i, j) then 1 else 0) [0..<K]) \<le> (if fst p = i then 1 else (0::nat))"
proof -
  have "sum_list (map (\<lambda>j. if p = (i, j) then 1 else 0) [0..<K])
      = (\<Sum>j\<in>{0..<K}. if j = snd p then (if fst p = i then 1 else 0) else (0::nat))"
    unfolding interv_sum_list_conv_sum_set_nat
    by (rule sum.cong) (auto simp: prod_eq_iff)
  also have "\<dots> \<le> (if fst p = i then 1 else 0)"
    by (simp add: sum.delta)
  finally show ?thesis .
qed

lemma indicator_col_sum:
  "sum_list (map (\<lambda>i. if p = (i, j) then 1 else 0) [0..<K]) \<le> (if snd p = j then 1 else (0::nat))"
proof -
  have "sum_list (map (\<lambda>i. if p = (i, j) then 1 else 0) [0..<K])
      = (\<Sum>i\<in>{0..<K}. if i = fst p then (if snd p = j then 1 else 0) else (0::nat))"
    unfolding interv_sum_list_conv_sum_set_nat
    by (rule sum.cong) (auto simp: prod_eq_iff)
  also have "\<dots> \<le> (if snd p = j then 1 else 0)"
    by (simp add: sum.delta)
  finally show ?thesis .
qed

lemma overlap_row_sum_le:
  "sum_list (map (\<lambda>j. length (filter (\<lambda>p. p = (i, j)) ps)) [0..<K])
     \<le> length (filter (\<lambda>l. l = i) (map fst ps))"
proof (induction ps)
  case Nil then show ?case by simp
next
  case (Cons p ps)
  have "sum_list (map (\<lambda>j. length (filter (\<lambda>q. q = (i, j)) (p # ps))) [0..<K])
      = sum_list (map (\<lambda>j. (if p = (i, j) then 1 else 0) + length (filter (\<lambda>q. q = (i, j)) ps)) [0..<K])"
    by (intro arg_cong [where f = sum_list] map_cong) auto
  also have "\<dots> = sum_list (map (\<lambda>j. if p = (i, j) then 1 else 0) [0..<K])
                 + sum_list (map (\<lambda>j. length (filter (\<lambda>q. q = (i, j)) ps)) [0..<K])"
    by (rule sum_list_addf)
  also have "\<dots> \<le> (if fst p = i then 1 else 0) + length (filter (\<lambda>l. l = i) (map fst ps))"
    by (rule add_mono [OF indicator_row_sum Cons.IH])
  also have "\<dots> = length (filter (\<lambda>l. l = i) (map fst (p # ps)))"
    by simp
  finally show ?case .
qed

lemma overlap_col_sum_le:
  "sum_list (map (\<lambda>i. length (filter (\<lambda>p. p = (i, j)) ps)) [0..<K])
     \<le> length (filter (\<lambda>l. l = j) (map snd ps))"
proof (induction ps)
  case Nil then show ?case by simp
next
  case (Cons p ps)
  have "sum_list (map (\<lambda>i. length (filter (\<lambda>q. q = (i, j)) (p # ps))) [0..<K])
      = sum_list (map (\<lambda>i. (if p = (i, j) then 1 else 0) + length (filter (\<lambda>q. q = (i, j)) ps)) [0..<K])"
    by (intro arg_cong [where f = sum_list] map_cong) auto
  also have "\<dots> = sum_list (map (\<lambda>i. if p = (i, j) then 1 else 0) [0..<K])
                 + sum_list (map (\<lambda>i. length (filter (\<lambda>q. q = (i, j)) ps)) [0..<K])"
    by (rule sum_list_addf)
  also have "\<dots> \<le> (if snd p = j then 1 else 0) + length (filter (\<lambda>l. l = j) (map snd ps))"
    by (rule add_mono [OF indicator_col_sum Cons.IH])
  also have "\<dots> = length (filter (\<lambda>l. l = j) (map snd (p # ps)))"
    by simp
  finally show ?case .
qed

lemma unat_u16_of_nat_le: "unat (of_nat k :: u16) \<le> k"
  by (simp add: unat_of_nat)

lemma unat_entry_le:
  "unat (if 0 < i \<and> 0 < j then of_nat (overlap_count c n i j) else (0::u16)) \<le> overlap_count c n i j"
  by (simp add: unat_u16_of_nat_le)

lemma overlap_sums_le:
  assumes "same_shape cell_seg n_seg"
    and "numba_find_overlaps cell_seg n_seg = Inr (cell_counts, n_counts, overlap_counts)"
  shows "(\<forall>i < length cell_counts. voxel_count cell_seg i < 65536 \<longrightarrow>
            sum_list (map unat (overlap_counts ! i)) \<le> unat (cell_counts ! i)) \<and>
         (\<forall>j < length n_counts. voxel_count n_seg j < 65536 \<longrightarrow>
            sum_list (map (\<lambda>row. unat (row ! j)) overlap_counts) \<le> unat (n_counts ! j))"
proof (intro conjI allI impI)
  note st = stats_nth [OF assms]
  fix i assume i: "i < length cell_counts" and small: "voxel_count cell_seg i < 65536"
  from i have i': "i \<le> Max (set (flat cell_seg))" by (simp add: st(1))
  let ?N = "Max (set (flat n_seg)) + 1"
  show "sum_list (map unat (overlap_counts ! i)) \<le> unat (cell_counts ! i)"
  proof (cases "0 < i")
    case False
    then have "overlap_counts ! i = map (\<lambda>j. 0) [0..<?N]"
      unfolding st(6) [OF i'] by simp
    then show ?thesis by (simp add: o_def)
  next
    case True
    have "sum_list (map unat (overlap_counts ! i))
        = sum_list (map (\<lambda>j. unat (if 0 < i \<and> 0 < j then of_nat (overlap_count cell_seg n_seg i j) else (0::u16))) [0..<?N])"
      unfolding st(6) [OF i'] map_map o_def by (rule refl)
    also have "\<dots> \<le> sum_list (map (\<lambda>j. overlap_count cell_seg n_seg i j) [0..<?N])"
      by (rule sum_list_mono) (rule unat_entry_le)
    also have "\<dots> \<le> length (filter (\<lambda>l. l = i) (map fst (voxel_pairs cell_seg n_seg)))"
      unfolding overlap_count_def by (rule overlap_row_sum_le)
    also have "\<dots> = voxel_count cell_seg i"
      by (simp only: same_shape_pairs_fst [OF assms(1)] voxel_count_def)
    also have "\<dots> = unat (cell_counts ! i)"
      using True small by (simp only: st(4) [OF i'] if_True unat_u16_of_nat) simp
    finally show ?thesis .
  qed
next
  note st = stats_nth [OF assms]
  fix j assume j: "j < length n_counts" and small: "voxel_count n_seg j < 65536"
  from j have j': "j \<le> Max (set (flat n_seg))" by (simp add: st(2))
  let ?M = "Max (set (flat cell_seg)) + 1"
  let ?entry = "\<lambda>i j. if 0 < i \<and> 0 < j then of_nat (overlap_count cell_seg n_seg i j) else (0::u16)"
  from numba_find_overlaps_Inr [OF assms(2)]
  have "(cell_counts, n_counts, overlap_counts) = stats_of cell_seg n_seg" by simp
  then have oc: "overlap_counts = map (\<lambda>i. map (?entry i) [0..<Max (set (flat n_seg)) + 1]) [0..<?M]"
    unfolding stats_of_def by simp
  show "sum_list (map (\<lambda>row. unat (row ! j)) overlap_counts) \<le> unat (n_counts ! j)"
  proof (cases "0 < j")
    case False
    have "sum_list (map (\<lambda>row. unat (row ! j)) overlap_counts)
        = sum_list (map (\<lambda>i. unat (?entry i j)) [0..<?M])"
      unfolding oc map_map o_def nth_map_upt0 [OF j'] by (rule refl)
    also have "\<dots> = 0" using False by simp
    finally have z: "sum_list (map (\<lambda>row. unat (row ! j)) overlap_counts) = 0" .
    show ?thesis unfolding z by (rule le0)
  next
    case True
    have "sum_list (map (\<lambda>row. unat (row ! j)) overlap_counts)
        = sum_list (map (\<lambda>i. unat (?entry i j)) [0..<?M])"
      unfolding oc map_map o_def nth_map_upt0 [OF j'] by (rule refl)
    also have "\<dots> \<le> sum_list (map (\<lambda>i. overlap_count cell_seg n_seg i j) [0..<?M])"
      by (rule sum_list_mono) (rule unat_entry_le)
    also have "\<dots> \<le> length (filter (\<lambda>l. l = j) (map snd (voxel_pairs cell_seg n_seg)))"
      unfolding overlap_count_def by (rule overlap_col_sum_le)
    also have "\<dots> = voxel_count n_seg j"
      by (simp only: same_shape_pairs_snd [OF assms(1)] voxel_count_def)
    also have "\<dots> = unat (n_counts ! j)"
      using True small by (simp only: st(5) [OF j'] if_True unat_u16_of_nat) simp
    finally show ?thesis .
  qed
qed




text \<open>
  When no counter wraps the statistics are consistent: a nucleus or a cell that is
  reported with count zero has an all-zero column or row in the overlap matrix.
\<close>

lemma counter_statistics_consistent:
  assumes "same_shape cell_seg n_seg"
    and "numba_find_overlaps cell_seg n_seg = Inr (cell_counts, n_counts, overlap_counts)"
  shows "(\<forall>j < length n_counts. voxel_count n_seg j < 65536 \<and> n_counts ! j = 0 \<longrightarrow>
            (\<forall>row \<in> set overlap_counts. j < length row \<and> row ! j = 0)) \<and>
         (\<forall>i < length cell_counts. voxel_count cell_seg i < 65536 \<and> cell_counts ! i = 0 \<longrightarrow>
            i < length overlap_counts \<and> (\<forall>c \<in> set (overlap_counts ! i). c = 0))"
proof (intro conjI allI impI ballI; (elim conjE)?)
  note st = stats_nth [OF assms]
  note le = overlap_sums_le [OF assms]
  fix j row
  assume j: "j < length n_counts" and small: "voxel_count n_seg j < 65536"
    and z: "n_counts ! j = 0" and row: "row \<in> set overlap_counts"
  from row obtain i where i: "i < length overlap_counts" "row = overlap_counts ! i"
    by (auto simp: in_set_conv_nth)
  then have "i \<le> Max (set (flat cell_seg))" by (simp add: st(3))
  from st(6) [OF this] i have "length row = Max (set (flat n_seg)) + 1" by simp
  with j show "j < length row" by (simp add: st(2))
  from le [THEN conjunct2, rule_format, OF j small] z
  have "sum_list (map (\<lambda>row. unat (row ! j)) overlap_counts) = 0"
    by simp
  with row have "unat (row ! j) = 0" by (auto simp: sum_list_eq_0_iff)
  then show "row ! j = 0" by (simp add: unat_eq_0)
next
  note st = stats_nth [OF assms]
  fix i
  assume i: "i < length cell_counts"
  then show "i < length overlap_counts" by (simp add: st(1,3))
next
  note le = overlap_sums_le [OF assms]
  fix i c
  assume i: "i < length cell_counts" and small: "voxel_count cell_seg i < 65536"
    and z: "cell_counts ! i = 0" and c: "c \<in> set (overlap_counts ! i)"
  from le [THEN conjunct1, rule_format, OF i small] z
  have "sum_list (map unat (overlap_counts ! i)) = 0" by simp
  with c have "unat c = 0" by (auto simp: sum_list_eq_0_iff)
  then show "c = 0" by (simp add: unat_eq_0)
qed

section \<open>Properties of the bounding box\<close>

lemma nonzero3_empty: "True \<notin> set (flat msk) \<Longrightarrow> nonzero3 msk = []"
  by (auto simp: nonzero3_def flat_def in_set_enumerate_eq) (metis nth_mem)

lemma axis_range_Nil: "axis_range [] pixel_toll axis_size = Inl EmptyMaskError"
  by (simp add: axis_range_def)

lemma get_bbox_empty: "True \<notin> set (flat msk) \<Longrightarrow> get_bbox msk pixel_toll = Inl EmptyMaskError"
  by (simp add: get_bbox_def nonzero3_empty axis_range_Nil split: prod.splits)

lemma flat_vmap: "flat (vmap f v) = map f (flat v)"
  by (simp add: flat_def vmap_def map_concat)

text \<open>
  Claim C8. \<open>get_bbox\<close> raises on a mask with no true voxel, and \<open>split_from_seeds\<close>
  raises the same error, from its call of \<open>get_bbox\<close>, when no voxel of the volume
  carries an id of \<open>all_idx\<close>.
\<close>

theorem empty_mask_raises:
  "(True \<notin> set (flat msk) \<longrightarrow> get_bbox msk pixel_toll = Inl EmptyMaskError) \<and>
   (set (flat segmentation) \<inter> set all_idx = {} \<longrightarrow>
      split_from_seeds flood segmentation boundary_pmap seeds all_idx = Inl EmptyMaskError)"
proof (intro conjI impI)
  assume "True \<notin> set (flat msk)"
  then show "get_bbox msk pixel_toll = Inl EmptyMaskError" by (rule get_bbox_empty)
next
  assume "set (flat segmentation) \<inter> set all_idx = {}"
  then have "True \<notin> set (flat (vmap (\<lambda>l. l \<in> set all_idx) segmentation))"
    by (auto simp: flat_vmap)
  then have "get_bbox (vmap (\<lambda>l. l \<in> set all_idx) segmentation) 0 = Inl EmptyMaskError"
    by (rule get_bbox_empty)
  then show "split_from_seeds flood segmentation boundary_pmap seeds all_idx = Inl EmptyMaskError"
    by (simp add: split_from_seeds_def)
qed

theorem empty_mask_raises_witness:
  "True \<notin> set (flat [[[False, False]]]) \<and>
   get_bbox [[[False, False]]] 2 = Inl EmptyMaskError \<and>
   set (flat [[[1, 1], [0, 3 :: nat]]]) \<inter> set [2] = {} \<and>
   split_from_seeds (\<lambda>p s. s) [[[1, 1], [0, 3]]] [[[1, 1], [1, 1]]] [[[1, 0], [0, 2]]] [2]
     = Inl EmptyMaskError"
  using empty_mask_raises [of "[[[False, False]]]" 2 "[[[1, 1], [0, 3]]]" "[2]" "\<lambda>p s. s"
      "[[[1, 1], [1, 1]]]" "[[[1, 0], [0, 2]]]"]
  by (simp add: flat_def)

section \<open>Properties of the analysis passes\<close>

lemma nonzero1_set: "set (nonzero1 a) = {i. i < length a \<and> a ! i \<noteq> 0}"
  by (auto simp: nonzero1_def)

lemma nonzero1_all_zero: "\<forall>c \<in> set a. c = 0 \<Longrightarrow> nonzero1 a = []"
  by (auto simp: nonzero1_def filter_empty_conv)

lemma over_seg_entry_zero_column:
  assumes "\<forall>row \<in> set intersection_counts. idx < length row \<and> row ! idx = 0"
  shows "over_seg_entry nuclei_counts intersection_counts threshold idx = Inr empty_over_seg_record"
proof -
  have "nonzero1 (map (\<lambda>row. row ! idx) intersection_counts) = []"
    using assms by (intro nonzero1_all_zero) auto
  moreover have "\<not> (\<exists>row \<in> set intersection_counts. length row \<le> idx)"
    using assms by (auto simp: not_le)
  ultimately show ?thesis
    by (simp add: over_seg_entry_def empty_over_seg_record_def)
qed

lemma over_seg_loop_member:
  "over_seg_loop nuclei_counts intersection_counts threshold idxs = Inr d \<Longrightarrow> (k, r) \<in> set d \<Longrightarrow>
   over_seg_entry nuclei_counts intersection_counts threshold k = Inr r \<and> is_over_seg r \<and> k \<in> set idxs"
proof (induction idxs arbitrary: d)
  case Nil then show ?case by simp
next
  case (Cons idx idxs)
  then show ?case
    by (auto split: sum.splits if_splits)
qed

lemma over_seg_loop_total:
  "\<forall>idx \<in> set idxs. \<forall>row \<in> set intersection_counts. idx < length row \<Longrightarrow>
   \<exists>d. over_seg_loop nuclei_counts intersection_counts threshold idxs = Inr d"
proof (induction idxs)
  case Nil then show ?case by simp
next
  case (Cons idx idxs)
  then obtain d where d: "over_seg_loop nuclei_counts intersection_counts threshold idxs = Inr d"
    by auto
  have "\<not> (\<exists>row \<in> set intersection_counts. length row \<le> idx)"
    using Cons.prems by (auto simp: not_le)
  then obtain r where "over_seg_entry nuclei_counts intersection_counts threshold idx = Inr r"
    by (simp add: over_seg_entry_def Let_def)
  with d show ?case by simp
qed

lemma under_seg_entry_fields:
  assumes "under_seg_entry nuclei_counts msk intersection_counts threshold idx = Inr r"
  shows "idx < length intersection_counts"
    and "under_n_idx r = nonzero1 (intersection_counts ! idx)"
    and "set (under_seg_idx r) \<subseteq> set (under_n_idx r)"
    and "is_under_seg r = (1 < length (under_seg_idx r))"
proof -
  from assms show i: "idx < length intersection_counts"
    by (auto simp: under_seg_entry_def split: if_splits)
  from assms i show "under_n_idx r = nonzero1 (intersection_counts ! idx)"
    by (auto simp: under_seg_entry_def Let_def split: if_splits)
  from assms i show "is_under_seg r = (1 < length (under_seg_idx r))"
    by (auto simp: under_seg_entry_def Let_def split: if_splits)
  have sub: "set (map fst (filter P (zip xs ys))) \<subseteq> set xs"
    for P and xs :: "nat list" and ys :: "ratio list"
    by (auto dest: set_zip_leftD)
  from assms i have "under_seg_idx r
      = map fst (filter (\<lambda>(k, r_i). exceeds r_i threshold \<and> msk ! k)
                   (zip (under_n_idx r) (under_r_intersection r)))"
    by (auto simp: under_seg_entry_def Let_def split: if_splits)
  then show "set (under_seg_idx r) \<subseteq> set (under_n_idx r)"
    using sub by metis
qed

lemma under_seg_entry_zero_row:
  assumes "idx < length intersection_counts" and "\<forall>c \<in> set (intersection_counts ! idx). c = 0"
  shows "under_seg_entry nuclei_counts msk intersection_counts threshold idx = Inr empty_under_seg_record"
  using assms nonzero1_all_zero [OF assms(2)]
  by (simp add: under_seg_entry_def empty_under_seg_record_def)

lemma under_seg_loop_member:
  "under_seg_loop nuclei_counts msk intersection_counts threshold idxs = Inr d \<Longrightarrow> (k, r) \<in> set d \<Longrightarrow>
   under_seg_entry nuclei_counts msk intersection_counts threshold k = Inr r \<and> is_under_seg r \<and> k \<in> set idxs"
proof (induction idxs arbitrary: d)
  case Nil then show ?case by simp
next
  case (Cons idx idxs)
  then show ?case
    by (auto split: sum.splits if_splits)
qed

text \<open>
  Claim C6, as the code has it. Neither pass tests a count for zero. An id is skipped
  when the statistics are consistent at it: a nucleus of count zero whose column of the
  overlap matrix is zero has no overlapping cell, so the over-segmentation pass computes
  no ratio for it and emits no record, and the under-segmentation pass never divides by
  its count nor lists it; a cell of count zero whose row is zero has no overlapping
  nucleus and yields no record.
\<close>

theorem zero_count_ids_skipped:
  "(nuclei_counts ! j = 0 \<and> (\<forall>row \<in> set intersection_counts. j < length row \<and> row ! j = 0) \<longrightarrow>
      over_seg_entry nuclei_counts intersection_counts threshold j = Inr empty_over_seg_record \<and>
      (\<forall>d. find_potential_over_seg nuclei_counts intersection_counts threshold = Inr d \<longrightarrow>
           j \<notin> fst ` set d) \<and>
      (\<forall>idx r. under_seg_entry nuclei_counts nuclei_counts_mask intersection_counts threshold idx = Inr r \<longrightarrow>
           j \<notin> set (under_n_idx r) \<and> j \<notin> set (under_seg_idx r))) \<and>
   (cell_counts ! i = 0 \<and> i < length intersection_counts \<and> (\<forall>c \<in> set (intersection_counts ! i). c = 0) \<longrightarrow>
      under_seg_entry nuclei_counts nuclei_counts_mask intersection_counts threshold i
        = Inr empty_under_seg_record \<and>
      (\<forall>d. find_potential_under_seg nuclei_counts cell_counts intersection_counts threshold quantiles_clip = Inr d \<longrightarrow>
           i \<notin> fst ` set d))"
proof (intro conjI impI allI; (elim conjE)?)
  assume col: "\<forall>row \<in> set intersection_counts. j < length row \<and> row ! j = 0"
  then show e: "over_seg_entry nuclei_counts intersection_counts threshold j = Inr empty_over_seg_record"
    by (rule over_seg_entry_zero_column)
  {
    fix d assume "find_potential_over_seg nuclei_counts intersection_counts threshold = Inr d"
    then have l: "over_seg_loop nuclei_counts intersection_counts threshold [0..<length nuclei_counts] = Inr d"
      by (simp add: find_potential_over_seg_def)
    show "j \<notin> fst ` set d"
    proof
      assume "j \<in> fst ` set d"
      then obtain r where "(j, r) \<in> set d" by auto
      from over_seg_loop_member [OF l this] e show False
        by (auto simp: empty_over_seg_record_def)
    qed
  }
  {
    fix idx r
    assume r: "under_seg_entry nuclei_counts nuclei_counts_mask intersection_counts threshold idx = Inr r"
    note f = under_seg_entry_fields [OF r]
    have "intersection_counts ! idx \<in> set intersection_counts" using f(1) by simp
    with col have "j \<notin> set (nonzero1 (intersection_counts ! idx))"
      by (auto simp: nonzero1_set)
    with f(2,3) show "j \<notin> set (under_n_idx r)" "j \<notin> set (under_seg_idx r)" by auto
  }
next
  assume i: "i < length intersection_counts" and row: "\<forall>c \<in> set (intersection_counts ! i). c = 0"
  then show e: "under_seg_entry nuclei_counts nuclei_counts_mask intersection_counts threshold i
        = Inr empty_under_seg_record"
    by (rule under_seg_entry_zero_row)
  fix d
  assume "find_potential_under_seg nuclei_counts cell_counts intersection_counts threshold quantiles_clip = Inr d"
  then obtain m where "under_seg_loop nuclei_counts m intersection_counts threshold [0..<length cell_counts] = Inr d"
    by (auto simp: find_potential_under_seg_def split: sum.splits)
  note l = this
  show "i \<notin> fst ` set d"
  proof
    assume "i \<in> fst ` set d"
    then obtain r where "(i, r) \<in> set d" by auto
    from under_seg_loop_member [OF l this] under_seg_entry_zero_row [OF i row, of nuclei_counts m threshold]
    show False
      by (auto simp: empty_under_seg_record_def)
  qed
qed

text \<open>
  The theorem at nucleus 2 and cell 2 of a small consistent input.
\<close>

theorem zero_count_ids_skipped_witness:
  "[0, 4, 0 :: u16] ! 2 = 0 \<and>
   list_all (\<lambda>row. 2 < length row \<and> row ! 2 = 0) [[0, 0, 0], [0, 2, 0], [0, 0, 0], [0, 2, 0 :: u16]] \<and>
   over_seg_entry [0, 4, 0] [[0, 0, 0], [0, 2, 0], [0, 0, 0], [0, 2, 0]] (3 / 10) 2
     = Inr empty_over_seg_record \<and>
   [0, 5, 0, 5 :: u16] ! 2 = 0 \<and>
   list_all (\<lambda>c. c = 0) ([[0, 0, 0], [0, 2, 0], [0, 0, 0], [0, 2, 0 :: u16]] ! 2) \<and>
   under_seg_entry [0, 4, 0] [False, True, False] [[0, 0, 0], [0, 2, 0], [0, 0, 0], [0, 2, 0]] (3 / 10) 2
     = Inr empty_under_seg_record"
  using zero_count_ids_skipped [of "[0, 4, 0]" 2 "[[0, 0, 0], [0, 2, 0], [0, 0, 0], [0, 2, 0]]"
      "3 / 10" "[False, True, False]" "[0, 5, 0, 5]" 2 "(0, 1)"]
  by simp

lemma wrapped_nucleus_stats:
  "numba_find_overlaps [[replicate 32768 1 @ replicate 32768 2]] [[replicate 32768 1 @ replicate 32768 1]]
     = Inr ([0, 32768, 32768], [0, 0], [[0, 0], [0, 32768], [0, 32768]])"
proof -
  let ?c = "[[replicate 32768 (1::nat) @ replicate 32768 2]]"
  let ?n = "[[replicate 32768 (1::nat) @ replicate 32768 1]]"
  have p: "voxel_pairs ?c ?n = replicate 32768 (1, 1) @ replicate 32768 (2, 1)"
    by (simp add: voxel_pairs_def zip_replicate)
  have mc: "Max (set (flat ?c)) = 2" and mn: "Max (set (flat ?n)) = 1"
    by (simp_all add: flat_def)
  have u: "[0..<2 + 1] = [0, 1, 2]" "[0..<1 + 1] = [0, 1]"
    by (simp_all add: upt_rec)
  have "numba_find_overlaps ?c ?n = Inr (stats_of ?c ?n)"
    by (rule numba_find_overlaps_closed) (simp_all add: flat_def)
  also have "stats_of ?c ?n = ([0, 32768, 32768], [0, 0], [[0, 0], [0, 32768], [0, 32768]])"
    unfolding stats_of_def overlap_count_def p mc mn u
    by simp
  finally show ?thesis .
qed

text \<open>
  Without the consistency the claim fails: for a nucleus of count zero with two non-zero
  overlaps both ratios are \<open>inf\<close>, nothing is raised, and the nucleus is reported as
  over-segmented. The overlap counter produces such statistics for a nucleus of 65536
  voxels that two cells share.
\<close>

theorem zero_count_nucleus_over_segmented:
  "find_potential_over_seg [0, 0] [[0, 0], [0, 5], [0, 5]] (3 / 10)
     = Inr [(1, \<lparr>over_c_idx = [1, 2], over_seg_idx = [1, 2], is_over_seg = True,
                   over_r_intersection = [PosInf, PosInf]\<rparr>)] \<and>
   numba_find_overlaps [[replicate 32768 1 @ replicate 32768 2]] [[replicate 32768 1 @ replicate 32768 1]]
     = Inr ([0, 32768, 32768], [0, 0], [[0, 0], [0, 32768], [0, 32768]]) \<and>
   find_potential_over_seg [0, 0] [[0, 0], [0, 32768], [0, 32768]] (3 / 10)
     = Inr [(1, \<lparr>over_c_idx = [1, 2], over_seg_idx = [1, 2], is_over_seg = True,
                   over_r_intersection = [PosInf, PosInf]\<rparr>)]"
proof -
  have "find_potential_over_seg [0, 0] [[0, 0], [0, 5], [0, 5]] (3 / 10)
     = Inr [(1, \<lparr>over_c_idx = [1, 2], over_seg_idx = [1, 2], is_over_seg = True,
                   over_r_intersection = [PosInf, PosInf]\<rparr>)]"
    by code_simp
  moreover have "find_potential_over_seg [0, 0] [[0, 0], [0, 32768], [0, 32768]] (3 / 10)
     = Inr [(1, \<lparr>over_c_idx = [1, 2], over_seg_idx = [1, 2], is_over_seg = True,
                   over_r_intersection = [PosInf, PosInf]\<rparr>)]"
    by code_simp
  ultimately show ?thesis using wrapped_nucleus_stats by simp
qed

text \<open>
  Claim C4, as the code has it. In the scenario the ratios of nuclei 1 and 2 are 0.9 and
  0.1, of which only the first exceeds 0.5; with quantile bounds (0, 1) the keep-mask is
  false at both nuclei, whose count 100 is not strictly below the upper quantile 100; so
  no nucleus qualifies, \<open>is_under_seg\<close> is false for cell 1 and no record is emitted.
\<close>

theorem under_seg_scenario:
  "exceeds (true_divide 90 100) (1 / 2) \<and> \<not> exceeds (true_divide 10 100) (1 / 2) \<and>
   get_quantile_mask [0, 100, 100] (0, 1) = Inr [False, False, False] \<and>
   under_seg_entry [0, 100, 100] [False, False, False] [[0, 0, 0], [0, 90, 10]] (1 / 2) 1
     = Inr \<lparr>under_n_idx = [1, 2], under_seg_idx = [], is_under_seg = False,
             under_r_intersection = [Finite (9 / 10), Finite (1 / 10)]\<rparr> \<and>
   find_potential_under_seg [0, 100, 100] [0, 100] [[0, 0, 0], [0, 90, 10]] (1 / 2) (0, 1) = Inr []"
  by code_simp

text \<open>
  Nucleus 1 is not judged qualifying: the qualifying set of cell 1 is empty.
\<close>

theorem under_seg_scenario_no_nucleus_qualifies:
  "get_quantile_mask [0, 100, 100] (0, 1) = Inr [False, False, False] \<and>
   map_sum id under_seg_idx
     (under_seg_entry [0, 100, 100] [False, False, False] [[0, 0, 0], [0, 90, 10]] (1 / 2) 1) = Inr [] \<and>
   1 \<notin> set ([] :: nat list)"
  by code_simp

text \<open>
  Claim C5 fails on the code. For a mask of shape (2, 2, 2) whose only true voxel is
  (1, 1, 1) and tolerance 0 the box is \<open>slice(1, 1)\<close> on every axis, of extent zero: the
  upper bound \<open>max(coord) + tolerance\<close> is used as an exclusive end, only the first axis
  has the guard for an empty extent, and the guard sets the bound to the constant 1.
\<close>

theorem get_bbox_single_voxel_empty_box:
  "get_bbox [[[False, False], [False, False]], [[False, False], [False, True]]] 0
     = Inr (((1, 1), (1, 1), (1, 1)), 1, 1, 1) \<and>
   extent 2 (1, 1) = 0"
  by code_simp

section \<open>Properties of the merge pass\<close>

lemma map2_map_same: "map2 F (map G xs) xs = map (\<lambda>x. F (G x) x) xs"
  by (induction xs) simp_all

lemma vmap2_vmap_same: "vmap2 h (vmap g v) v = vmap (\<lambda>l. h (g l) l) v"
  by (simp add: vmap2_def vmap_def map2_map_same)

lemma vmap_id: "vmap (\<lambda>l. l) v = v"
  by (simp add: vmap_def)

lemma relabel_where_vmap:
  "relabel_where segmentation c new_value (vmap g segmentation)
     = vmap (\<lambda>l. if l = c then new_value else g l) segmentation"
  by (simp add: relabel_where_def vmap2_vmap_same)

lemma fold_relabel_where_vmap:
  "fold (\<lambda>c. relabel_where segmentation c new_value) cs (vmap g segmentation)
     = vmap (\<lambda>l. if l \<in> set cs then new_value else g l) segmentation"
proof (induction cs arbitrary: g)
  case Nil then show ?case by simp
next
  case (Cons c cs)
  have "(\<lambda>l. if l \<in> set cs then new_value else if l = c then new_value else g l)
      = (\<lambda>l. if l \<in> set (c # cs) then new_value else g l)"
    by auto
  then show ?case by (simp add: relabel_where_vmap Cons.IH)
qed

lemma merge_label_Cons:
  "merge_label ids ((n, val) # rest) g
     = (if selected ids n
        then merge_label ids rest (\<lambda>l. if l \<in> set (over_seg_idx val) then hd (over_seg_idx val) else g l)
        else merge_label ids rest g)"
  by (rule ext) (auto simp: merge_label_def split: list.splits)

lemma fix_over_loop_closed:
  assumes "\<forall>(n, val) \<in> set recs. selected ids n \<longrightarrow> over_seg_idx val \<noteq> []"
  shows "fix_over_loop segmentation ids recs (vmap g segmentation)
           = Inr (vmap (merge_label ids recs g) segmentation)"
  using assms
proof (induction recs arbitrary: g)
  case Nil
  then show ?case by (simp add: merge_label_def)
next
  case (Cons r recs)
  obtain n val where r: "r = (n, val)" by (cases r)
  show ?case
  proof (cases "selected ids n")
    case False
    with Cons r show ?thesis by (simp add: merge_label_Cons)
  next
    case True
    with Cons.prems r obtain new_value tl where v: "over_seg_idx val = new_value # tl"
      by (cases "over_seg_idx val") auto
    have h: "hd (over_seg_idx val) = new_value" using v by simp
    have "fix_over_loop segmentation ids (r # recs) (vmap g segmentation)
        = fix_over_loop segmentation ids recs
            (fold (\<lambda>c. relabel_where segmentation c new_value) (over_seg_idx val) (vmap g segmentation))"
      using True r v by simp
    also have "\<dots> = fix_over_loop segmentation ids recs
            (vmap (\<lambda>l. if l \<in> set (over_seg_idx val) then hd (over_seg_idx val) else g l) segmentation)"
      unfolding fold_relabel_where_vmap h by (rule refl)
    also have "\<dots> = Inr (vmap (merge_label ids (r # recs) g) segmentation)"
      using Cons.prems True r by (simp add: Cons.IH merge_label_Cons)
    finally show ?thesis .
  qed
qed

lemma fix_over_segmentation_closed:
  assumes "\<forall>(n, val) \<in> set recs. selected ids n \<longrightarrow> over_seg_idx val \<noteq> []"
  shows "fix_over_segmentation segmentation recs ids = Inr (vmap (merge_target ids recs) segmentation)"
proof -
  have "merge_label ids recs (\<lambda>l. l) = merge_target ids recs"
    by (rule ext) (simp add: merge_label_def merge_target_def)
  with fix_over_loop_closed [OF assms, of segmentation "\<lambda>l. l"] show ?thesis
    by (simp add: fix_over_segmentation_def vmap_id)
qed

lemma merge_target_cases:
  "(merge_target ids recs l = l \<and> (\<forall>(n, val) \<in> set recs. selected ids n \<longrightarrow> l \<notin> set (over_seg_idx val))) \<or>
   (\<exists>(n, val) \<in> set recs. selected ids n \<and> l \<in> set (over_seg_idx val) \<and>
        merge_target ids recs l = hd (over_seg_idx val))"
proof (cases "filter (\<lambda>(n, val). selected ids n \<and> l \<in> set (over_seg_idx val)) recs")
  case Nil
  then have "\<forall>(n, val) \<in> set recs. selected ids n \<longrightarrow> l \<notin> set (over_seg_idx val)"
    by (auto simp: filter_empty_conv)
  with Nil show ?thesis by (simp add: merge_target_def)
next
  case (Cons m ms)
  let ?f = "filter (\<lambda>(n, val). selected ids n \<and> l \<in> set (over_seg_idx val)) recs"
  have "last ?f \<in> set ?f" using Cons by (intro last_in_set) simp
  then have "last ?f \<in> set recs" and "selected ids (fst (last ?f))"
    and "l \<in> set (over_seg_idx (snd (last ?f)))"
    by auto
  moreover have "merge_target ids recs l = hd (over_seg_idx (snd (last ?f)))"
    using Cons by (simp add: merge_target_def)
  ultimately show ?thesis
    by (intro disjI2 bexI [of _ "last ?f"]) (auto simp: case_prod_beta)
qed

lemma over_seg_entry_two_cells:
  assumes "\<forall>row \<in> set intersection_counts. j < length row"
    and "nonzero1 (map (\<lambda>row. row ! j) intersection_counts) = [a, b]"
    and "exceeds (true_divide (intersection_counts ! a ! j) (nuclei_counts ! j)) threshold"
    and "exceeds (true_divide (intersection_counts ! b ! j) (nuclei_counts ! j)) threshold"
  shows "over_seg_entry nuclei_counts intersection_counts threshold j
           = Inr \<lparr>over_c_idx = [a, b], over_seg_idx = [a, b], is_over_seg = True,
                   over_r_intersection =
                     [true_divide (intersection_counts ! a ! j) (nuclei_counts ! j),
                      true_divide (intersection_counts ! b ! j) (nuclei_counts ! j)]\<rparr>"
proof -
  have "\<not> (\<exists>row \<in> set intersection_counts. length row \<le> j)"
    using assms(1) by (auto simp: not_le)
  then show ?thesis
    using assms(2,3,4) by (simp add: over_seg_entry_def Let_def)
qed

text \<open>
  Claim C1, as the code has it. Every mask of the merge pass is taken on the volume as it
  was before the pass, so the pass is one relabelling of that volume: a voxel whose old
  label lies in the qualifying set of an applied record gets the first id of the last
  such record, and any other voxel keeps its label. Hence a qualifying id is relabelled
  to the representative of its record wherever it appears when all applied records that
  hold it agree on the representative, and an id that is held by an applied record and is
  the representative of none is carried by no voxel after the pass. A nucleus that is
  overlapped by exactly the cells \<open>a\<close> and \<open>b\<close>, each with a ratio above the threshold,
  gets a record with the qualifying set \<open>[a, b]\<close>.
\<close>

theorem merge_pass_relabels:
  assumes "\<forall>(n, val) \<in> set nuclei_assignments. selected nuclei_idx n \<longrightarrow> over_seg_idx val \<noteq> []"
  shows "fix_over_segmentation segmentation nuclei_assignments nuclei_idx
           = Inr (vmap (merge_target nuclei_idx nuclei_assignments) segmentation) \<and>
         (\<forall>n val l. (n, val) \<in> set nuclei_assignments \<and> selected nuclei_idx n \<and>
              l \<in> set (over_seg_idx val) \<and>
              (\<forall>(n', val') \<in> set nuclei_assignments.
                  selected nuclei_idx n' \<and> l \<in> set (over_seg_idx val') \<longrightarrow>
                  hd (over_seg_idx val') = hd (over_seg_idx val)) \<longrightarrow>
              merge_target nuclei_idx nuclei_assignments l = hd (over_seg_idx val)) \<and>
         (\<forall>l. (\<forall>(n, val) \<in> set nuclei_assignments. selected nuclei_idx n \<longrightarrow> l \<notin> set (over_seg_idx val)) \<longrightarrow>
              merge_target nuclei_idx nuclei_assignments l = l) \<and>
         (\<forall>n val b. (n, val) \<in> set nuclei_assignments \<and> selected nuclei_idx n \<and>
              b \<in> set (over_seg_idx val) \<and>
              (\<forall>(n', val') \<in> set nuclei_assignments. selected nuclei_idx n' \<longrightarrow> hd (over_seg_idx val') \<noteq> b) \<longrightarrow>
              b \<notin> set (flat (vmap (merge_target nuclei_idx nuclei_assignments) segmentation))) \<and>
         (\<forall>j a b. (\<forall>row \<in> set intersection_counts. j < length row) \<and>
              nonzero1 (map (\<lambda>row. row ! j) intersection_counts) = [a, b] \<and>
              exceeds (true_divide (intersection_counts ! a ! j) (nuclei_counts ! j)) threshold \<and>
              exceeds (true_divide (intersection_counts ! b ! j) (nuclei_counts ! j)) threshold \<longrightarrow>
              (\<exists>r. over_seg_entry nuclei_counts intersection_counts threshold j = Inr r \<and>
                   over_seg_idx r = [a, b] \<and> is_over_seg r))"
proof (intro conjI allI impI; (elim conjE)?)
  show "fix_over_segmentation segmentation nuclei_assignments nuclei_idx
           = Inr (vmap (merge_target nuclei_idx nuclei_assignments) segmentation)"
    using assms by (rule fix_over_segmentation_closed)
next
  fix n val l
  assume "(n, val) \<in> set nuclei_assignments" "selected nuclei_idx n" "l \<in> set (over_seg_idx val)"
    and "\<forall>(n', val') \<in> set nuclei_assignments.
           selected nuclei_idx n' \<and> l \<in> set (over_seg_idx val') \<longrightarrow>
           hd (over_seg_idx val') = hd (over_seg_idx val)"
  with merge_target_cases [of nuclei_idx nuclei_assignments l]
  show "merge_target nuclei_idx nuclei_assignments l = hd (over_seg_idx val)"
    by fastforce
next
  fix l
  assume "\<forall>(n, val) \<in> set nuclei_assignments. selected nuclei_idx n \<longrightarrow> l \<notin> set (over_seg_idx val)"
  with merge_target_cases [of nuclei_idx nuclei_assignments l]
  show "merge_target nuclei_idx nuclei_assignments l = l"
    by fastforce
next
  fix n val b
  assume r: "(n, val) \<in> set nuclei_assignments" "selected nuclei_idx n" "b \<in> set (over_seg_idx val)"
    and nb: "\<forall>(n', val') \<in> set nuclei_assignments. selected nuclei_idx n' \<longrightarrow> hd (over_seg_idx val') \<noteq> b"
  have "merge_target nuclei_idx nuclei_assignments l \<noteq> b" for l
    using merge_target_cases [of nuclei_idx nuclei_assignments l] r nb by fastforce
  then show "b \<notin> set (flat (vmap (merge_target nuclei_idx nuclei_assignments) segmentation))"
    by (auto simp: flat_vmap)
next
  fix j a b
  assume "\<forall>row \<in> set intersection_counts. j < length row"
    and "nonzero1 (map (\<lambda>row. row ! j) intersection_counts) = [a, b]"
    and "exceeds (true_divide (intersection_counts ! a ! j) (nuclei_counts ! j)) threshold"
    and "exceeds (true_divide (intersection_counts ! b ! j) (nuclei_counts ! j)) threshold"
  from over_seg_entry_two_cells [OF this]
  show "\<exists>r. over_seg_entry nuclei_counts intersection_counts threshold j = Inr r \<and>
            over_seg_idx r = [a, b] \<and> is_over_seg r"
    by simp
qed

text \<open>
  Nucleus 1 is covered half by cell 1 and half by cell 2: with threshold 0.3 its record
  has the qualifying set [1, 2], and after the pass no voxel carries label 2.
\<close>

theorem merge_pass_relabels_witness:
  "numba_find_overlaps [[[1, 1, 2, 2, 0]]] [[[1, 1, 1, 1, 0]]]
     = Inr ([0, 2, 2], [0, 4], [[0, 0], [0, 2], [0, 2]]) \<and>
   find_potential_over_seg [0, 4] [[0, 0], [0, 2], [0, 2]] (3 / 10)
     = Inr [(1, \<lparr>over_c_idx = [1, 2], over_seg_idx = [1, 2], is_over_seg = True,
                   over_r_intersection = [Finite (1 / 2), Finite (1 / 2)]\<rparr>)] \<and>
   fix_over_segmentation [[[1, 1, 2, 2, 0]]]
       [(1, \<lparr>over_c_idx = [1, 2], over_seg_idx = [1, 2], is_over_seg = True,
              over_r_intersection = [Finite (1 / 2), Finite (1 / 2)]\<rparr>)] None
     = Inr [[[1, 1, 1, 1, 0]]] \<and>
   2 \<notin> set (flat [[[1, 1, 1, 1, 0 :: nat]]])"
proof -
  let ?val = "\<lparr>over_c_idx = [1, 2], over_seg_idx = [1, 2], is_over_seg = True,
              over_r_intersection = [Finite (1 / 2), Finite (1 / 2)]\<rparr>"
  have a: "numba_find_overlaps [[[1, 1, 2, 2, 0]]] [[[1, 1, 1, 1, 0]]]
     = Inr ([0, 2, 2], [0, 4], [[0, 0], [0, 2], [0, 2]])"
    by code_simp
  have b: "find_potential_over_seg [0, 4] [[0, 0], [0, 2], [0, 2]] (3 / 10) = Inr [(1, ?val)]"
    by code_simp
  have h: "\<forall>(n, val) \<in> set [(1, ?val)]. selected None n \<longrightarrow> over_seg_idx val \<noteq> []"
    by simp
  have m: "vmap (merge_target None [(1, ?val)]) [[[1, 1, 2, 2, 0]]] = [[[1, 1, 1, 1, 0]]]"
    by (simp add: vmap_def merge_target_def selected_def)
  from merge_pass_relabels [OF h, where segmentation = "[[[1, 1, 2, 2, 0]]]"]
  have "fix_over_segmentation [[[1, 1, 2, 2, 0]]] [(1, ?val)] None
          = Inr (vmap (merge_target None [(1, ?val)]) [[[1, 1, 2, 2, 0]]])"
    by (rule conjunct1)
  moreover have "2 \<notin> set (flat (vmap (merge_target None [(1, ?val)]) [[[1, 1, 2, 2, 0]]]))"
    using merge_pass_relabels [OF h, where segmentation = "[[[1, 1, 2, 2, 0]]]", THEN conjunct2, THEN conjunct2,
        THEN conjunct2, THEN conjunct1, rule_format, of 1 ?val 2]
    by (simp add: selected_def)
  ultimately show ?thesis using a b m by simp
qed

text \<open>
  The claim as stated fails in two ways. When cell 2 qualifies for nucleus 1 (with cell 1)
  and for nucleus 2 (with cell 3), the second record writes label 2 back on the voxels
  the first had relabelled to 1. And a nucleus covered by cell 1 (nine voxels) and cell 2
  (one voxel) has one qualifying cell at threshold 0.3: no record, and label 2 stays.
\<close>

theorem merge_pass_overlapping_records:
  "numba_find_overlaps [[[1, 1, 2, 2, 2, 2, 3, 3]]] [[[1, 1, 1, 1, 2, 2, 2, 2]]]
     = Inr ([0, 2, 4, 2], [0, 4, 4], [[0, 0, 0], [0, 2, 0], [0, 2, 2], [0, 0, 2]]) \<and>
   find_potential_over_seg [0, 4, 4] [[0, 0, 0], [0, 2, 0], [0, 2, 2], [0, 0, 2]] (3 / 10)
     = Inr [(1, \<lparr>over_c_idx = [1, 2], over_seg_idx = [1, 2], is_over_seg = True,
                   over_r_intersection = [Finite (1 / 2), Finite (1 / 2)]\<rparr>),
            (2, \<lparr>over_c_idx = [2, 3], over_seg_idx = [2, 3], is_over_seg = True,
                   over_r_intersection = [Finite (1 / 2), Finite (1 / 2)]\<rparr>)] \<and>
   fix_over_segmentation [[[1, 1, 2, 2, 2, 2, 3, 3]]]
       [(1, \<lparr>over_c_idx = [1, 2], over_seg_idx = [1, 2], is_over_seg = True,
              over_r_intersection = [Finite (1 / 2), Finite (1 / 2)]\<rparr>),
        (2, \<lparr>over_c_idx = [2, 3], over_seg_idx = [2, 3], is_over_seg = True,
              over_r_intersection = [Finite (1 / 2), Finite (1 / 2)]\<rparr>)] None
     = Inr [[[1, 1, 2, 2, 2, 2, 2, 2]]] \<and>
   numba_find_overlaps [[[1, 1, 1, 1, 1, 1, 1, 1, 1, 2]]] [[[1, 1, 1, 1, 1, 1, 1, 1, 1, 1]]]
     = Inr ([0, 9, 1], [0, 10], [[0, 0], [0, 9], [0, 1]]) \<and>
   find_potential_over_seg [0, 10] [[0, 0], [0, 9], [0, 1]] (3 / 10) = Inr [] \<and>
   fix_over_segmentation [[[1, 1, 1, 1, 1, 1, 1, 1, 1, 2]]] [] None
     = Inr [[[1, 1, 1, 1, 1, 1, 1, 1, 1, 2]]]"
  by code_simp

section \<open>Properties of the pipeline\<close>






section \<open>Properties of the local resplit\<close>












lemma same_shape_vmap_left: "same_shape (vmap f a) b = same_shape a b"
  by (simp add: same_shape_def vmap_def o_def)





section \<open>The passes write fresh arrays only\<close>

lemma preserves_refl: "preserves n st st"
  by (simp add: preserves_def)

lemma preserves_trans: "preserves n st st1 \<Longrightarrow> preserves n st1 st2 \<Longrightarrow> preserves n st st2"
  by (auto simp: preserves_def)

lemma preserves_alloc:
  "n \<le> next_addr st \<Longrightarrow> alloc v st = (a, st1) \<Longrightarrow>
   preserves n st st1 \<and> n \<le> a \<and> a < next_addr st1 \<and> next_addr st \<le> a"
  by (auto simp: alloc_def preserves_def)

lemma preserves_assign: "n \<le> a \<Longrightarrow> preserves n st (assign a v st)"
  by (auto simp: assign_def preserves_def)

lemma next_addr_assign: "next_addr (assign a v st) = next_addr st"
  by (simp add: assign_def)

lemma preserves_fold_assign:
  "n \<le> a \<Longrightarrow> preserves n st (fold (\<lambda>c st. assign a (f c st) st) cs st)"
proof (induction cs arbitrary: st)
  case Nil then show ?case by (simp add: preserves_refl)
next
  case (Cons c cs)
  from preserves_assign [OF Cons.prems] Cons.IH [OF Cons.prems]
  show ?case by (auto intro: preserves_trans)
qed

lemma preserves_fix_over_loop:
  "n \<le> segmentation' \<Longrightarrow>
   fix_over_loop_st segmentation nuclei_idx recs segmentation' st = (res, st') \<Longrightarrow>
   preserves n st st' \<and> (\<forall>a. res = Inr a \<longrightarrow> a = segmentation')"
proof (induction recs arbitrary: st)
  case Nil then show ?case by (auto simp: preserves_refl)
next
  case (Cons r recs)
  obtain n_idx val where r: "r = (n_idx, val)" by (cases r)
  show ?case
  proof (cases "selected nuclei_idx n_idx")
    case False
    with Cons.prems(2) r
    have "fix_over_loop_st segmentation nuclei_idx recs segmentation' st = (res, st')"
      by simp
    then show ?thesis by (rule Cons.IH [OF Cons.prems(1)])
  next
    case True
    show ?thesis
    proof (cases "over_seg_idx val")
      case Nil
      with Cons.prems True r show ?thesis by (auto simp: preserves_refl)
    next
      case (Cons new_value tl)
      let ?st1 = "fold (\<lambda>c st. assign segmentation'
                               (relabel_where (arrays st segmentation) c new_value
                                  (arrays st segmentation')) st)
                  (over_seg_idx val) st"
      have 1: "preserves n st ?st1"
        using Cons.prems(1) by (rule preserves_fold_assign)
      from Cons.prems(2) True r Cons
      have "fix_over_loop_st segmentation nuclei_idx recs segmentation' ?st1 = (res, st')"
        by simp
      from Cons.IH [OF Cons.prems(1) this] 1 show ?thesis
        by (auto intro: preserves_trans)
    qed
  qed
qed

lemma preserves_fix_over_segmentation:
  assumes "fix_over_segmentation_st segmentation nuclei_assignments nuclei_idx st = (res, st')"
  shows "preserves (next_addr st) st st' \<and>
         (\<forall>a. res = Inr a \<longrightarrow> next_addr st \<le> a \<and> a < next_addr st')"
proof -
  obtain s' st1 where a: "alloc (arrays st segmentation) st = (s', st1)"
    by (cases "alloc (arrays st segmentation) st")
  from preserves_alloc [OF order_refl a]
  have 1: "preserves (next_addr st) st st1" "next_addr st \<le> s'" "s' < next_addr st1"
    by simp_all
  from assms a have "fix_over_loop_st segmentation nuclei_idx nuclei_assignments s' st1 = (res, st')"
    by (simp add: fix_over_segmentation_st_def)
  from preserves_fix_over_loop [OF 1(2) this] 1 show ?thesis
    by (auto intro: preserves_trans simp: preserves_def)
qed


lemma preserves_split_from_seeds:
  assumes "split_from_seeds_st flood segmentation boundary_pmap seeds all_idx st = (res, st')"
  shows "preserves (next_addr st) st st' \<and>
         (\<forall>a. res = Inr a \<longrightarrow> next_addr st \<le> a \<and> a < next_addr st')"
  using assms
  by (auto simp: split_from_seeds_st_def alloc_def assign_def preserves_def Let_def
           split: sum.splits prod.splits if_splits)

lemma preserves_nuclei_seeds:
  assumes "nuclei_seeds_st segmentation' nuclei_segmentation under_idx st = (res, st')"
  shows "preserves (next_addr st) st st' \<and>
         (\<forall>a. res = Inr a \<longrightarrow> next_addr st \<le> a \<and> a < next_addr st')"
proof -
  obtain s st1 where a: "alloc (vmap (\<lambda>_. 0) (arrays st segmentation')) st = (s, st1)"
    by (cases "alloc (vmap (\<lambda>_. 0) (arrays st segmentation')) st")
  from preserves_alloc [OF order_refl a]
  have 1: "preserves (next_addr st) st st1" "next_addr st \<le> s" "s < next_addr st1"
    by simp_all
  let ?st2 = "fold (\<lambda>(i, n_idx) st. assign s
                        (vmap2 (\<lambda>s n. if n_idx = n then i + 1 else s)
                           (arrays st s) (arrays st nuclei_segmentation)) st)
                  (enumerate 0 under_idx) st1"
  have 2: "preserves (next_addr st) st1 ?st2"
    using preserves_fold_assign [OF 1(2), where f = "\<lambda>p st.
        vmap2 (\<lambda>s n. if snd p = n then fst p + 1 else s) (arrays st s) (arrays st nuclei_segmentation)"
        and cs = "enumerate 0 under_idx" and st = st1]
    by (simp add: split_def)
  from 1 2 have 3: "preserves (next_addr st) st ?st2" "s < next_addr ?st2"
    by (auto intro: preserves_trans simp: preserves_def)
  from assms a have "(res, st') = (Inl IndexError, st1) \<or> (res, st') = (Inr s, ?st2)"
    by (auto simp: nuclei_seeds_st_def split: if_splits)
  with 1 3 show ?thesis by auto
qed

lemma preserves_mono: "preserves n st st' \<Longrightarrow> m \<le> n \<Longrightarrow> preserves m st st'"
  by (auto simp: preserves_def)

lemma preserves_next: "preserves n st st' \<Longrightarrow> next_addr st \<le> next_addr st'"
  by (simp add: preserves_def)

lemma preserves_fix_under_loop:
  "n \<le> segmentation' \<Longrightarrow> segmentation' < next_addr st \<Longrightarrow> n \<le> next_addr st \<Longrightarrow>
   fix_under_loop_st flood nuclei_segmentation boundary_pmap cell_idx recs segmentation' st = (res, st') \<Longrightarrow>
   preserves n st st' \<and> (\<forall>a. res = Inr a \<longrightarrow> n \<le> a \<and> a < next_addr st')"
proof (induction recs arbitrary: st segmentation')
  case Nil then show ?case by (auto simp: preserves_refl)
next
  case (Cons r recs)
  obtain c_idx val where r: "r = (c_idx, val)" by (cases r)
  show ?case
  proof (cases "selected cell_idx c_idx")
    case False
    with Cons.prems(4) r
    have "fix_under_loop_st flood nuclei_segmentation boundary_pmap cell_idx recs segmentation' st
            = (res, st')"
      by simp
    then show ?thesis by (rule Cons.IH [OF Cons.prems(1,2,3)])
  next
    case True
    obtain r1 st1 where 1: "nuclei_seeds_st segmentation' nuclei_segmentation (under_seg_idx val) st
        = (r1, st1)"
      by (cases "nuclei_seeds_st segmentation' nuclei_segmentation (under_seg_idx val) st")
    note p1 = preserves_nuclei_seeds [OF 1]
    then have q1: "preserves n st st1"
      using Cons.prems(3) by (auto intro: preserves_mono)
    show ?thesis
    proof (cases r1)
      case (Inl e)
      with Cons.prems(4) True r 1 have "res = Inl e" "st' = st1" by simp_all
      with q1 show ?thesis by simp
    next
      case (Inr seeds')
      obtain r2 st2 where 2: "split_from_seeds_st flood segmentation' boundary_pmap seeds' [c_idx] st1
          = (r2, st2)"
        by (cases "split_from_seeds_st flood segmentation' boundary_pmap seeds' [c_idx] st1")
      note p2 = preserves_split_from_seeds [OF 2]
      have n1: "n \<le> next_addr st1"
        using Cons.prems(3) p1 by (auto dest: preserves_next)
      from p2 n1 have q2: "preserves n st1 st2" by (auto intro: preserves_mono)
      with q1 have q: "preserves n st st2" by (rule preserves_trans)
      show ?thesis
      proof (cases r2)
        case (Inl e)
        with Cons.prems(4) True r 1 2 \<open>r1 = Inr seeds'\<close> have "res = Inl e" "st' = st2" by simp_all
        with q show ?thesis by simp
      next
        case (Inr s)
        with p2 n1 have s: "n \<le> s" "s < next_addr st2" by auto
        have n2: "n \<le> next_addr st2" using s by simp
        from Cons.prems(4) True r 1 2 \<open>r1 = Inr seeds'\<close> Inr
        have "fix_under_loop_st flood nuclei_segmentation boundary_pmap cell_idx recs s st2 = (res, st')"
          by simp
        from Cons.IH [OF s n2 this] q show ?thesis
          by (auto intro: preserves_trans)
      qed
    qed
  qed
qed

lemma preserves_fix_under_segmentation:
  assumes "fix_under_segmentation_st flood segmentation nuclei_segmentation boundary_pmap
             cell_assignments cell_idx st = (res, st')"
  shows "preserves (next_addr st) st st' \<and>
         (\<forall>a. res = Inr a \<longrightarrow> next_addr st \<le> a \<and> a < next_addr st')"
proof -
  obtain s' st1 where a: "alloc (arrays st segmentation) st = (s', st1)"
    by (cases "alloc (arrays st segmentation) st")
  from preserves_alloc [OF order_refl a]
  have 1: "preserves (next_addr st) st st1" "next_addr st \<le> s'" "s' < next_addr st1"
    by simp_all
  then have 2: "next_addr st \<le> next_addr st1" by simp
  from assms a
  have "fix_under_loop_st flood nuclei_segmentation boundary_pmap cell_idx cell_assignments s' st1
          = (res, st')"
    by (simp add: fix_under_segmentation_st_def)
  from preserves_fix_under_loop [OF 1(2,3) 2 this] 1(1) show ?thesis
    by (auto intro: preserves_trans)
qed


lemma preserves_pipeline:
  assumes "fix_over_under_segmentation_from_nuclei_st flood cell_seg nuclei_seg threshold_merge
             threshold_split quantiles_nuclei boundary st = (res, st')"
  shows "preserves (next_addr st) st st' \<and>
         (\<forall>a. res = Inr a \<longrightarrow> next_addr st \<le> a \<and> a < next_addr st')"
proof (cases "numba_find_overlaps (arrays st cell_seg) (arrays st nuclei_seg)")
  case (Inl e)
  with assms show ?thesis
    by (auto simp: fix_over_under_segmentation_from_nuclei_st_def preserves_refl)
next
  case s: (Inr stats)
  obtain cc nc oc where stats: "stats = (cc, nc, oc)" by (cases stats)
  show ?thesis
  proof (cases "find_potential_over_seg nc oc threshold_merge")
    case (Inl e)
    with assms s stats show ?thesis
      by (auto simp: fix_over_under_segmentation_from_nuclei_st_def preserves_refl)
  next
    case na: (Inr nuclei_assignments)
    obtain r1 st1 where 1: "fix_over_segmentation_st cell_seg nuclei_assignments None st = (r1, st1)"
      by (cases "fix_over_segmentation_st cell_seg nuclei_assignments None st")
    note p1 = preserves_fix_over_segmentation [OF 1]
    show ?thesis
    proof (cases r1)
      case (Inl e)
      with assms s stats na 1 have "res = Inl e" "st' = st1"
        by (simp_all add: fix_over_under_segmentation_from_nuclei_st_def)
      with p1 show ?thesis by simp
    next
      case c: (Inr cell_seg')
      show ?thesis
      proof (cases "numba_find_overlaps (arrays st1 cell_seg') (arrays st1 nuclei_seg)")
        case (Inl e)
        with assms s stats na 1 c have "res = Inl e" "st' = st1"
          by (simp_all add: fix_over_under_segmentation_from_nuclei_st_def)
        with p1 show ?thesis by simp
      next
        case s2: (Inr stats2)
        obtain cc2 nc2 oc2 where stats2: "stats2 = (cc2, nc2, oc2)" by (cases stats2)
        show ?thesis
        proof (cases "find_potential_under_seg nc2 cc2 oc2 threshold_split quantiles_nuclei")
          case (Inl e)
          with assms s stats na 1 c s2 stats2 have "res = Inl e" "st' = st1"
            by (simp_all add: fix_over_under_segmentation_from_nuclei_st_def)
          with p1 show ?thesis by simp
        next
          case ca: (Inr cell_assignments)
          let ?b = "case boundary of None \<Rightarrow> vmap (\<lambda>_. 1) (arrays st1 cell_seg) | Some b \<Rightarrow> b"
          from assms s stats na 1 c s2 stats2 ca
          have "fix_under_segmentation_st flood cell_seg' nuclei_seg ?b cell_assignments None st1
                  = (res, st')"
            by (simp add: fix_over_under_segmentation_from_nuclei_st_def)
          note p2 = preserves_fix_under_segmentation [OF this]
          from p1 have n: "next_addr st \<le> next_addr st1" by (simp add: preserves_def)
          with p2 have "preserves (next_addr st) st1 st'" by (auto intro: preserves_mono)
          with p1 have "preserves (next_addr st) st st'" by (auto intro: preserves_trans)
          with p2 n show ?thesis by auto
        qed
      qed
    qed
  qed
qed

section \<open>The passes on the store compute the values of the passes above\<close>

lemma arrays_assign: "arrays (assign a v st) b = (if b = a then v else arrays st b)"
  by (simp add: assign_def)

lemma fold_relabel_assign:
  assumes "segmentation \<noteq> segmentation'"
  shows "arrays (fold (\<lambda>c st. assign segmentation'
                               (relabel_where (arrays st segmentation) c new_value
                                  (arrays st segmentation')) st) cs st) b
         = (if b = segmentation'
            then fold (\<lambda>c. relabel_where (arrays st segmentation) c new_value) cs (arrays st segmentation')
            else arrays st b)"
  using assms
  by (induction cs arbitrary: st) (simp_all add: arrays_assign)

lemma fix_over_loop_st_value:
  assumes "segmentation \<noteq> segmentation'"
    and "fix_over_loop_st segmentation nuclei_idx recs segmentation' st = (res, st')"
  shows "fix_over_loop (arrays st segmentation) nuclei_idx recs (arrays st segmentation')
           = map_sum (\<lambda>e. e) (arrays st') res"
  using assms(2)
proof (induction recs arbitrary: st)
  case Nil then show ?case by auto
next
  case (Cons r recs)
  obtain n_idx val where r: "r = (n_idx, val)" by (cases r)
  show ?case
  proof (cases "selected nuclei_idx n_idx")
    case False
    with Cons r show ?thesis by simp
  next
    case True
    show ?thesis
    proof (cases "over_seg_idx val")
      case Nil
      with Cons.prems True r show ?thesis by auto
    next
      case hd: (Cons new_value tl)
      let ?st1 = "fold (\<lambda>c st. assign segmentation'
                               (relabel_where (arrays st segmentation) c new_value
                                  (arrays st segmentation')) st)
                  (over_seg_idx val) st"
      from Cons.prems True r hd
      have "fix_over_loop_st segmentation nuclei_idx recs segmentation' ?st1 = (res, st')"
        by simp
      from Cons.IH [OF this]
      have "fix_over_loop (arrays ?st1 segmentation) nuclei_idx recs (arrays ?st1 segmentation')
          = map_sum (\<lambda>e. e) (arrays st') res" .
      moreover have "arrays ?st1 segmentation = arrays st segmentation"
        using assms(1) by (simp add: fold_relabel_assign)
      moreover have "arrays ?st1 segmentation'
          = fold (\<lambda>c. relabel_where (arrays st segmentation) c new_value) (over_seg_idx val)
              (arrays st segmentation')"
        using assms(1) by (simp add: fold_relabel_assign)
      ultimately show ?thesis using True r hd by simp
    qed
  qed
qed

lemma fix_over_segmentation_st_value:
  assumes "segmentation < next_addr st"
    and "fix_over_segmentation_st segmentation nuclei_assignments nuclei_idx st = (res, st')"
  shows "fix_over_segmentation (arrays st segmentation) nuclei_assignments nuclei_idx
           = map_sum (\<lambda>e. e) (arrays st') res"
proof -
  let ?st1 = "snd (alloc (arrays st segmentation) st)"
  from assms(2)
  have l: "fix_over_loop_st segmentation nuclei_idx nuclei_assignments (next_addr st) ?st1 = (res, st')"
    by (simp add: fix_over_segmentation_st_def alloc_def)
  from assms(1) have "segmentation \<noteq> next_addr st" by simp
  from fix_over_loop_st_value [OF this l] assms(1) show ?thesis
    by (simp add: fix_over_segmentation_def alloc_def)
qed

lemma split_from_seeds_st_value:
  assumes "segmentation < next_addr st" and "seeds < next_addr st"
    and "split_from_seeds_st flood segmentation boundary_pmap seeds all_idx st = (res, st')"
  shows "split_from_seeds flood (arrays st segmentation) boundary_pmap (arrays st seeds) all_idx
           = map_sum (\<lambda>e. e) (arrays st') res"
proof (cases "get_bbox (vmap (\<lambda>l. l \<in> set all_idx) (arrays st segmentation)) 0")
  case (Inl e)
  with assms(3) show ?thesis
    by (auto simp: split_from_seeds_st_def split_from_seeds_def alloc_def)
next
  case bb: (Inr b)
  obtain bbox z_min x_min y_min where b: "b = (bbox, z_min, x_min, y_min)" by (cases b)
  show ?thesis
  proof (cases "flat (crop bbox boundary_pmap) = []")
    case True
    with assms(3) bb b show ?thesis
      by (auto simp: split_from_seeds_st_def split_from_seeds_def alloc_def)
  next
    case False
    show ?thesis
    proof (cases "arr_max (flat (arrays st segmentation))")
      case (Inl e)
      with assms(3) bb b False have "res = Inl e"
        by (simp add: split_from_seeds_st_def alloc_def Let_def)
      then show ?thesis using bb b False Inl
        by (simp add: split_from_seeds_def Let_def)
    next
      case (Inr max_id)
      with assms bb b False show ?thesis
        by (auto simp: split_from_seeds_st_def split_from_seeds_def alloc_def assign_def Let_def
                 split: if_splits)
    qed
  qed
qed


lemma fold_seed_assign:
  assumes "nuclei_segmentation \<noteq> s"
  shows "arrays (fold (\<lambda>(i, n_idx) st. assign s
                        (vmap2 (\<lambda>s n. if n_idx = n then i + 1 else s)
                           (arrays st s) (arrays st nuclei_segmentation)) st) ps st) b
         = (if b = s
            then fold (\<lambda>(i, n_idx) seeds. vmap2 (\<lambda>s n. if n_idx = n then i + 1 else s) seeds
                                              (arrays st nuclei_segmentation)) ps (arrays st s)
            else arrays st b)"
  using assms
  by (induction ps arbitrary: st) (simp_all add: arrays_assign split_def)

lemma nuclei_seeds_st_value:
  assumes "segmentation' < next_addr st" and "nuclei_segmentation < next_addr st"
    and "nuclei_seeds_st segmentation' nuclei_segmentation under_idx st = (res, st')"
  shows "nuclei_seeds (arrays st segmentation') (arrays st nuclei_segmentation) under_idx
           = map_sum (\<lambda>e. e) (arrays st') res"
proof -
  from assms(2) have ne: "nuclei_segmentation \<noteq> next_addr st" by simp
  show ?thesis
  proof (cases "under_idx \<noteq> [] \<and>
      \<not> same_shape (arrays st segmentation') (arrays st nuclei_segmentation)")
    case True
    with assms ne have "res = Inl IndexError"
      by (auto simp: nuclei_seeds_st_def alloc_def same_shape_vmap_left)
    with True show ?thesis by (simp add: nuclei_seeds_def)
  next
    case False
    with assms ne have "res = Inr (next_addr st)"
      and "st' = fold (\<lambda>(i, n_idx) sta. assign (next_addr st)
                        (vmap2 (\<lambda>s n. if n_idx = n then i + 1 else s)
                           (arrays sta (next_addr st)) (arrays sta nuclei_segmentation)) sta)
                  (enumerate 0 under_idx) (snd (alloc (vmap (\<lambda>_. 0) (arrays st segmentation')) st))"
      by (auto simp: nuclei_seeds_st_def alloc_def same_shape_vmap_left)
    with False ne show ?thesis
      by (simp add: nuclei_seeds_def fold_seed_assign alloc_def)
  qed
qed

lemma fix_under_loop_st_value:
  "segmentation' < next_addr st \<Longrightarrow> nuclei_segmentation < next_addr st \<Longrightarrow>
   fix_under_loop_st flood nuclei_segmentation boundary_pmap cell_idx recs segmentation' st = (res, st') \<Longrightarrow>
   fix_under_loop flood (arrays st nuclei_segmentation) boundary_pmap cell_idx recs
       (arrays st segmentation') = map_sum (\<lambda>e. e) (arrays st') res"
proof (induction recs arbitrary: st segmentation')
  case Nil then show ?case by auto
next
  case (Cons r recs)
  obtain c_idx val where r: "r = (c_idx, val)" by (cases r)
  show ?case
  proof (cases "selected cell_idx c_idx")
    case False
    with Cons.prems(3) r
    have "fix_under_loop_st flood nuclei_segmentation boundary_pmap cell_idx recs segmentation' st
            = (res, st')"
      by simp
    from Cons.IH [OF Cons.prems(1,2) this] False r show ?thesis by simp
  next
    case True
    obtain r1 st1 where 1: "nuclei_seeds_st segmentation' nuclei_segmentation (under_seg_idx val) st
        = (r1, st1)"
      by (cases "nuclei_seeds_st segmentation' nuclei_segmentation (under_seg_idx val) st")
    note v1 = nuclei_seeds_st_value [OF Cons.prems(1,2) 1]
    note p1 = preserves_nuclei_seeds [OF 1]
    show ?thesis
    proof (cases r1)
      case (Inl e)
      with Cons.prems(3) True r 1 have "res = Inl e" by simp
      with v1 Inl True r show ?thesis by simp
    next
      case s: (Inr seeds')
      with p1 have sd: "seeds' < next_addr st1" by simp
      from p1 Cons.prems(1,2) have a1: "arrays st1 segmentation' = arrays st segmentation'"
          "arrays st1 nuclei_segmentation = arrays st nuclei_segmentation"
          "segmentation' < next_addr st1" "nuclei_segmentation < next_addr st1"
        by (auto simp: preserves_def)
      obtain r2 st2 where 2: "split_from_seeds_st flood segmentation' boundary_pmap seeds' [c_idx] st1
          = (r2, st2)"
        by (cases "split_from_seeds_st flood segmentation' boundary_pmap seeds' [c_idx] st1")
      note v2 = split_from_seeds_st_value [OF a1(3) sd 2]
      note p2 = preserves_split_from_seeds [OF 2]
      from v1 s have ns: "nuclei_seeds (arrays st segmentation') (arrays st nuclei_segmentation)
          (under_seg_idx val) = Inr (arrays st1 seeds')"
        by simp
      show ?thesis
      proof (cases r2)
        case (Inl e)
        with Cons.prems(3) True r 1 2 s have "res = Inl e" by simp
        with v2 Inl True r ns a1 show ?thesis by simp
      next
        case n: (Inr new_seg)
        with p2 a1 have a2: "new_seg < next_addr st2" "nuclei_segmentation < next_addr st2"
            "arrays st2 nuclei_segmentation = arrays st nuclei_segmentation"
          by (auto simp: preserves_def)
        from Cons.prems(3) True r 1 2 s n
        have "fix_under_loop_st flood nuclei_segmentation boundary_pmap cell_idx recs new_seg st2
                = (res, st')"
          by simp
        from Cons.IH [OF a2(1,2) this] v2 n True r ns a1 a2(3) show ?thesis by simp
      qed
    qed
  qed
qed

lemma fix_under_segmentation_st_value:
  assumes "segmentation < next_addr st" and "nuclei_segmentation < next_addr st"
    and "fix_under_segmentation_st flood segmentation nuclei_segmentation boundary_pmap
           cell_assignments cell_idx st = (res, st')"
  shows "fix_under_segmentation flood (arrays st segmentation) (arrays st nuclei_segmentation)
               boundary_pmap cell_assignments cell_idx
           = map_sum (\<lambda>e. e) (arrays st') res"
proof -
  let ?st1 = "snd (alloc (arrays st segmentation) st)"
  from assms(3)
  have l: "fix_under_loop_st flood nuclei_segmentation boundary_pmap cell_idx cell_assignments
             (next_addr st) ?st1 = (res, st')"
    by (simp add: fix_under_segmentation_st_def alloc_def)
  have "next_addr st < next_addr ?st1" "nuclei_segmentation < next_addr ?st1"
    using assms(2) by (simp_all add: alloc_def)
  from fix_under_loop_st_value [OF this l] assms(2) show ?thesis
    by (simp add: fix_under_segmentation_def alloc_def)
qed

lemma pipeline_st_value:
  assumes "cell_seg < next_addr st" and "nuclei_seg < next_addr st"
    and "fix_over_under_segmentation_from_nuclei_st flood cell_seg nuclei_seg threshold_merge
           threshold_split quantiles_nuclei boundary st = (res, st')"
  shows "fix_over_under_segmentation_from_nuclei flood (arrays st cell_seg) (arrays st nuclei_seg)
               threshold_merge threshold_split quantiles_nuclei boundary
           = map_sum (\<lambda>e. e) (arrays st') res"
proof (cases "numba_find_overlaps (arrays st cell_seg) (arrays st nuclei_seg)")
  case (Inl e)
  with assms(3) have "res = Inl e"
    by (simp add: fix_over_under_segmentation_from_nuclei_st_def)
  with Inl show ?thesis by (simp add: fix_over_under_segmentation_from_nuclei_def)
next
  case s: (Inr stats)
  obtain cc nc oc where stats: "stats = (cc, nc, oc)" by (cases stats)
  show ?thesis
  proof (cases "find_potential_over_seg nc oc threshold_merge")
    case (Inl e)
    with assms(3) s stats have "res = Inl e"
      by (simp add: fix_over_under_segmentation_from_nuclei_st_def)
    with Inl s stats show ?thesis by (simp add: fix_over_under_segmentation_from_nuclei_def)
  next
    case na: (Inr nuclei_assignments)
    obtain r1 st1 where 1: "fix_over_segmentation_st cell_seg nuclei_assignments None st = (r1, st1)"
      by (cases "fix_over_segmentation_st cell_seg nuclei_assignments None st")
    note p1 = preserves_fix_over_segmentation [OF 1]
    note v1 = fix_over_segmentation_st_value [OF assms(1) 1]
    show ?thesis
    proof (cases r1)
      case (Inl e)
      with assms(3) s stats na 1 have "res = Inl e"
        by (simp add: fix_over_under_segmentation_from_nuclei_st_def)
      with Inl s stats na v1 show ?thesis by (simp add: fix_over_under_segmentation_from_nuclei_def)
    next
      case c: (Inr cell_seg')
      with p1 assms(1,2) have a1: "cell_seg' < next_addr st1" "nuclei_seg < next_addr st1"
          "arrays st1 nuclei_seg = arrays st nuclei_seg" "arrays st1 cell_seg = arrays st cell_seg"
        by (auto simp: preserves_def)
      from v1 c have f: "fix_over_segmentation (arrays st cell_seg) nuclei_assignments None
          = Inr (arrays st1 cell_seg')"
        by simp
      show ?thesis
      proof (cases "numba_find_overlaps (arrays st1 cell_seg') (arrays st nuclei_seg)")
        case (Inl e)
        with assms(3) s stats na 1 c a1 have "res = Inl e"
          by (simp add: fix_over_under_segmentation_from_nuclei_st_def)
        with Inl s stats na f show ?thesis by (simp add: fix_over_under_segmentation_from_nuclei_def)
      next
        case s2: (Inr stats2)
        obtain cc2 nc2 oc2 where stats2: "stats2 = (cc2, nc2, oc2)" by (cases stats2)
        show ?thesis
        proof (cases "find_potential_under_seg nc2 cc2 oc2 threshold_split quantiles_nuclei")
          case (Inl e)
          with assms(3) s stats na 1 c a1 s2 stats2 have "res = Inl e"
            by (simp add: fix_over_under_segmentation_from_nuclei_st_def)
          with Inl s stats na f s2 stats2 show ?thesis
            by (simp add: fix_over_under_segmentation_from_nuclei_def)
        next
          case ca: (Inr cell_assignments)
          let ?b1 = "case boundary of None \<Rightarrow> vmap (\<lambda>_. 1) (arrays st1 cell_seg) | Some b \<Rightarrow> b"
          let ?b = "case boundary of None \<Rightarrow> vmap (\<lambda>_. 1) (arrays st cell_seg) | Some b \<Rightarrow> b"
          have b: "?b1 = ?b" by (cases boundary) (simp_all add: a1(4))
          from assms(3) s stats na 1 c a1(3) s2 stats2 ca
          have "fix_under_segmentation_st flood cell_seg' nuclei_seg ?b1 cell_assignments None st1
                  = (res, st')"
            by (simp add: fix_over_under_segmentation_from_nuclei_st_def)
          from fix_under_segmentation_st_value [OF a1(1,2) this]
          have "fix_under_segmentation flood (arrays st1 cell_seg') (arrays st nuclei_seg) ?b
                  cell_assignments None = map_sum (\<lambda>e. e) (arrays st') res"
            unfolding b a1(3) .
          with s stats na f s2 stats2 ca show ?thesis
            by (simp add: fix_over_under_segmentation_from_nuclei_def)
        qed
      qed
    qed
  qed
qed

text \<open>
  Claim C9. The merge pass and the split pass each leave every array that existed before
  the call unchanged and return the address of an array allocated during the call; so
  does the pipeline: after it the arrays of the cell segmentation and of the nuclei
  segmentation are what they were, the result is a new array, different from both, and
  its content is the value the pipeline on values computes.
\<close>

theorem pipeline_does_not_mutate_inputs:
  "(fix_over_segmentation_st segmentation nuclei_assignments nuclei_idx st = (r1, st1) \<longrightarrow>
      (\<forall>a < next_addr st. arrays st1 a = arrays st a) \<and>
      (\<forall>a. r1 = Inr a \<longrightarrow> next_addr st \<le> a \<and> a < next_addr st1)) \<and>
   (fix_under_segmentation_st flood segmentation nuclei_segmentation boundary_pmap cell_assignments
        cell_idx st = (r2, st2) \<longrightarrow>
      (\<forall>a < next_addr st. arrays st2 a = arrays st a) \<and>
      (\<forall>a. r2 = Inr a \<longrightarrow> next_addr st \<le> a \<and> a < next_addr st2)) \<and>
   (cell_seg < next_addr st \<and> nuclei_seg < next_addr st \<and>
    fix_over_under_segmentation_from_nuclei_st flood cell_seg nuclei_seg threshold_merge
        threshold_split quantiles_nuclei boundary st = (res, st') \<longrightarrow>
      arrays st' cell_seg = arrays st cell_seg \<and>
      arrays st' nuclei_seg = arrays st nuclei_seg \<and>
      (\<forall>a. res = Inr a \<longrightarrow> a \<noteq> cell_seg \<and> a \<noteq> nuclei_seg \<and> a < next_addr st') \<and>
      fix_over_under_segmentation_from_nuclei flood (arrays st cell_seg) (arrays st nuclei_seg)
          threshold_merge threshold_split quantiles_nuclei boundary
        = map_sum (\<lambda>e. e) (arrays st') res)"
proof (intro conjI impI; (elim conjE)?)
  assume "fix_over_segmentation_st segmentation nuclei_assignments nuclei_idx st = (r1, st1)"
  from preserves_fix_over_segmentation [OF this]
  show "\<forall>a < next_addr st. arrays st1 a = arrays st a"
    and "\<forall>a. r1 = Inr a \<longrightarrow> next_addr st \<le> a \<and> a < next_addr st1"
    by (simp_all add: preserves_def)
next
  assume "fix_under_segmentation_st flood segmentation nuclei_segmentation boundary_pmap
            cell_assignments cell_idx st = (r2, st2)"
  from preserves_fix_under_segmentation [OF this]
  show "\<forall>a < next_addr st. arrays st2 a = arrays st a"
    and "\<forall>a. r2 = Inr a \<longrightarrow> next_addr st \<le> a \<and> a < next_addr st2"
    by (simp_all add: preserves_def)
next
  assume c: "cell_seg < next_addr st" and n: "nuclei_seg < next_addr st"
    and r: "fix_over_under_segmentation_from_nuclei_st flood cell_seg nuclei_seg threshold_merge
           threshold_split quantiles_nuclei boundary st = (res, st')"
  note p = preserves_pipeline [OF r]
  show "fix_over_under_segmentation_from_nuclei flood (arrays st cell_seg) (arrays st nuclei_seg)
          threshold_merge threshold_split quantiles_nuclei boundary
        = map_sum (\<lambda>e. e) (arrays st') res"
    using c n r by (rule pipeline_st_value)
  from p c show "arrays st' cell_seg = arrays st cell_seg" by (simp add: preserves_def)
  from p n show "arrays st' nuclei_seg = arrays st nuclei_seg" by (simp add: preserves_def)
  from p c n show "\<forall>a. res = Inr a \<longrightarrow> a \<noteq> cell_seg \<and> a \<noteq> nuclei_seg \<and> a < next_addr st'"
    by auto
qed

text \<open>
  A run that splits cell 1 in two: arrays 0 and 1, the inputs, are unchanged, and the
  result is array 5.
\<close>

theorem pipeline_does_not_mutate_inputs_witness:
  "(0::nat) < 2 \<and> (1::nat) < 2 \<and>
   fst (fix_over_under_segmentation_from_nuclei_st (\<lambda>p s. s) 0 1 (33 / 100) (66 / 100)
          (3 / 10, 99 / 100) None
          \<lparr>arrays = (\<lambda>a. [])
              (0 := [[[1, 1, 1, 1, 2, 2], [1, 1, 1, 1, 2, 2], [1, 1, 1, 1, 2, 2]]],
               1 := [[[1, 1, 2, 2, 3, 3], [1, 1, 2, 2, 3, 3], [0, 0, 0, 0, 3, 0]]]),
            next_addr = 2\<rparr>) = Inr 5 \<and>
   map (arrays (snd (fix_over_under_segmentation_from_nuclei_st (\<lambda>p s. s) 0 1 (33 / 100) (66 / 100)
          (3 / 10, 99 / 100) None
          \<lparr>arrays = (\<lambda>a. [])
              (0 := [[[1, 1, 1, 1, 2, 2], [1, 1, 1, 1, 2, 2], [1, 1, 1, 1, 2, 2]]],
               1 := [[[1, 1, 2, 2, 3, 3], [1, 1, 2, 2, 3, 3], [0, 0, 0, 0, 3, 0]]]),
            next_addr = 2\<rparr>))) [0, 1, 5]
     = [[[[1, 1, 1, 1, 2, 2], [1, 1, 1, 1, 2, 2], [1, 1, 1, 1, 2, 2]]],
        [[[1, 1, 2, 2, 3, 3], [1, 1, 2, 2, 3, 3], [0, 0, 0, 0, 3, 0]]],
        [[[4, 4, 5, 1, 2, 2], [4, 4, 5, 1, 2, 2], [1, 1, 1, 1, 2, 2]]]]"
proof -
  let ?st = "\<lparr>arrays = (\<lambda>a. [])
              (0 := [[[1, 1, 1, 1, 2, 2], [1, 1, 1, 1, 2, 2], [1, 1, 1, 1, 2, 2]]],
               1 := [[[1, 1, 2, 2, 3, 3], [1, 1, 2, 2, 3, 3], [0, 0, 0, 0, 3, 0 :: nat]]]),
            next_addr = 2\<rparr>"
  let ?r = "fix_over_under_segmentation_from_nuclei_st (\<lambda>p s. s) 0 1 (33 / 100) (66 / 100)
          (3 / 10, 99 / 100) None ?st"
  have f: "fst ?r = Inr 5" by code_simp
  have v: "arrays (snd ?r) 5 = [[[4, 4, 5, 1, 2, 2], [4, 4, 5, 1, 2, 2], [1, 1, 1, 1, 2, 2]]]"
    by code_simp
  have e: "?r = (fst ?r, snd ?r)" by simp
  have c: "0 < next_addr ?st \<and> 1 < next_addr ?st \<and> ?r = (fst ?r, snd ?r)"
    by simp
  from pipeline_does_not_mutate_inputs [THEN conjunct2, THEN conjunct2, rule_format, OF c]
  have "arrays (snd ?r) 0 = arrays ?st 0" and "arrays (snd ?r) 1 = arrays ?st 1"
    by simp_all
  with f v show ?thesis by simp
qed

end
